theory Spec2Isabelle
  imports Complex_Main "HOL-Library.Sublist"
begin

section \<open>Data model\<close>

text \<open>
  Account identifiers are strings. JavaScript numbers are idealised as reals (amounts,
  ratios, scores) and timestamps as integer milliseconds since the epoch, which is what
  \<^verbatim>\<open>Date.getTime()\<close> and the arithmetic on \<^verbatim>\<open>Date\<close> values read. A JavaScript
  \<^verbatim>\<open>Map\<close> iterates in insertion order, so the three maps of the graph are association
  lists whose keys occur once, in insertion order. A field that may hold \<^verbatim>\<open>null\<close>
  is an \<open>option\<close>.
\<close>

type_synonym account = string

record transaction =
  transaction_id :: string
  sender_id :: account
  receiver_id :: account
  tx_amount :: real
  tx_timestamp :: int

text \<open>
  One record serves both adjacency maps: \<open>peer\<close> is the field \<^verbatim>\<open>to\<close> of a forward
  edge and the field \<^verbatim>\<open>from\<close> of a reverse edge.
\<close>

record edge =
  peer :: account
  amount :: real
  timestamp :: int
  txId :: string

record node_meta =
  totalSent :: real
  totalReceived :: real
  uniqueSenders :: nat
  uniqueReceivers :: nat
  txCount :: nat
  outDegree :: nat
  inDegree :: nat
  allTimestamps :: "int list"
  minTimeDeltaMs :: "int option"
  throughputRatio :: "real option"

type_synonym adjacency = "(account \<times> edge list) list"

record graph =
  adjacencyList :: adjacency
  reverseAdjList :: adjacency
  nodeMetadata :: "(account \<times> node_meta) list"
  nodes :: "account list"

section \<open>GraphBuilder.build\<close>

text \<open>\<^verbatim>\<open>if (!m.has(k)) m.set(k, []); m.get(k).push(e)\<close> on an insertion-ordered map.\<close>

fun pushEdge :: "account \<Rightarrow> edge \<Rightarrow> adjacency \<Rightarrow> adjacency" where
  "pushEdge k e [] = [(k, [e])]"
| "pushEdge k e ((k', es) # rest) =
     (if k' = k then (k', es @ [e]) # rest else (k', es) # pushEdge k e rest)"

text \<open>\<^verbatim>\<open>if (!m.has(k)) m.set(k, [])\<close>\<close>

fun ensureKey :: "account \<Rightarrow> adjacency \<Rightarrow> adjacency" where
  "ensureKey k [] = [(k, [])]"
| "ensureKey k ((k', es) # rest) =
     (if k' = k then (k', es) # rest else (k', es) # ensureKey k rest)"

definition addTransaction :: "adjacency \<times> adjacency \<Rightarrow> transaction \<Rightarrow> adjacency \<times> adjacency" where
  "addTransaction g tx =
     (let adj1 = pushEdge (sender_id tx)
                   \<lparr>peer = receiver_id tx, amount = tx_amount tx,
                    timestamp = tx_timestamp tx, txId = transaction_id tx\<rparr> (fst g);
          radj1 = pushEdge (receiver_id tx)
                   \<lparr>peer = sender_id tx, amount = tx_amount tx,
                    timestamp = tx_timestamp tx, txId = transaction_id tx\<rparr> (snd g)
      in (ensureKey (receiver_id tx) adj1, ensureKey (sender_id tx) radj1))"

text \<open>\<^verbatim>\<open>m.get(k) || []\<close>\<close>

definition edgesOf :: "adjacency \<Rightarrow> account \<Rightarrow> edge list" where
  "edgesOf m k = (case map_of m k of Some es \<Rightarrow> es | None \<Rightarrow> [])"

text \<open>
  The minimum gap between consecutive sorted timestamps; \<open>None\<close> is the initial
  \<^verbatim>\<open>Infinity\<close>, stored as \<^verbatim>\<open>null\<close>.
\<close>

definition minTimeDelta :: "int list \<Rightarrow> int option" where
  "minTimeDelta ts =
     fold (\<lambda>i m. let delta = ts ! i - ts ! (i - 1)
                  in (case m of None \<Rightarrow> Some delta
                      | Some v \<Rightarrow> if delta < v then Some delta else Some v))
          [1..<length ts] None"

definition nodeMeta :: "edge list \<Rightarrow> edge list \<Rightarrow> node_meta" where
  "nodeMeta outEdges inEdges =
     (let tSent = foldl (\<lambda>s e. s + amount e) 0 outEdges;
          tReceived = foldl (\<lambda>s e. s + amount e) 0 inEdges;
          stamps = sort (map timestamp outEdges @ map timestamp inEdges)
      in \<lparr>totalSent = tSent,
          totalReceived = tReceived,
          uniqueSenders = length (remdups (map peer inEdges)),
          uniqueReceivers = length (remdups (map peer outEdges)),
          txCount = length outEdges + length inEdges,
          outDegree = length outEdges,
          inDegree = length inEdges,
          allTimestamps = stamps,
          minTimeDeltaMs = minTimeDelta stamps,
          throughputRatio = Some (if tReceived > 0 then tSent / tReceived else 0)\<rparr>)"

definition build :: "transaction list \<Rightarrow> graph" where
  "build txs =
     (let g = foldl addTransaction ([], []) txs
      in \<lparr>adjacencyList = fst g,
          reverseAdjList = snd g,
          nodeMetadata = map (\<lambda>(node, outEdges). (node, nodeMeta outEdges (edgesOf (snd g) node)))
                             (fst g),
          nodes = map fst (fst g)\<rparr>)"

section \<open>ScoringEngine: account suspicion\<close>

text \<open>\<^verbatim>\<open>Math.round(x * k) / k\<close>; \<^verbatim>\<open>Math.round\<close> rounds halves up.\<close>

definition roundTo :: "real \<Rightarrow> real \<Rightarrow> real" where
  "roundTo k x = of_int \<lfloor>x * k + 1 / 2\<rfloor> / k"

definition window72h :: int where
  "window72h = 72 * 3600 * 1000"

text \<open>\<^verbatim>\<open>while (j < sorted.length && sorted[j] <= windowEnd) j++\<close>; the value is the final j.\<close>

function scanWindow :: "int list \<Rightarrow> int \<Rightarrow> nat \<Rightarrow> nat" where
  "scanWindow srt windowEnd j =
     (if j < length srt \<and> srt ! j \<le> windowEnd
      then scanWindow srt windowEnd (j + 1) else j)"
  by pat_completeness auto
termination
  by (relation "measure (\<lambda>(srt, windowEnd, j). length srt - j)") auto

declare scanWindow.simps [simp del]

definition computeVelocity72h :: "int list \<Rightarrow> real" where
  "computeVelocity72h stamps =
     (if length stamps \<le> 1 then 1
      else let srt = sort stamps;
               maxInWindow = fold (\<lambda>i m. max m (scanWindow srt (srt ! i + window72h) i - i))
                                  [0..<length srt] 1
           in real maxInWindow / real (length srt))"

text \<open>\<^verbatim>\<open>s.includes(sub)\<close>: \<open>sub\<close> occurs in \<open>s\<close> as a contiguous substring.\<close>

fun includesStr :: "string \<Rightarrow> string \<Rightarrow> bool" where
  "includesStr [] sub = (sub = [])"
| "includesStr (c # cs) sub = (prefix sub (c # cs) \<or> includesStr cs sub)"

text \<open>
  The elements of \<^verbatim>\<open>new Set(xs)\<close> in iteration order: each value once, at its first
  occurrence.
\<close>

fun setOrder :: "'a list \<Rightarrow> 'a list" where
  "setOrder [] = []"
| "setOrder (x # xs) = x # setOrder (filter (\<lambda>y. y \<noteq> x) xs)"

record pm_state =
  pm :: real
  hasCycle :: bool
  hasFanIn :: bool
  hasFanOut :: bool
  hasShell :: bool

text \<open>One iteration of the loop over the pattern set; the four tests run in order.\<close>

definition pmStep :: "node_meta \<Rightarrow> string \<Rightarrow> pm_state \<Rightarrow> pm_state" where
  "pmStep meta p s0 =
     (let s1 = (if \<not> hasCycle s0 \<and> includesStr p ''cycle''
                then s0\<lparr>pm := pm s0 + 20, hasCycle := True\<rparr> else s0);
          s2 = (if \<not> hasFanIn s1 \<and> p = ''fan_in''
                then s1\<lparr>pm := pm s1 + 25, hasFanIn := True\<rparr> else s1);
          s3 = (if \<not> hasFanOut s2 \<and> p = ''fan_out''
                then s2\<lparr>pm := pm s2 + 25, hasFanOut := True\<rparr> else s2)
      in (if \<not> hasShell s3 \<and> (p = ''shell_intermediary'' \<or> p = ''shell_network_endpoint'')
          then s3\<lparr>pm := pm s3 + (if txCount meta \<le> 3 then 30 else 15), hasShell := True\<rparr>
          else s3))"

definition computePatternModifier :: "string list \<Rightarrow> node_meta \<Rightarrow> real" where
  "computePatternModifier detectedPatterns meta =
     pm (fold (pmStep meta) (setOrder detectedPatterns)
           \<lparr>pm = 0, hasCycle = False, hasFanIn = False, hasFanOut = False, hasShell = False\<rparr>)"

record suspicion_result =
  suspicion_score :: real
  suspicion_label :: string
  acceleration_score :: real
  stability_score :: real
  ring_participation_bonus :: real

definition suspicionLabel :: "real \<Rightarrow> string" where
  "suspicionLabel s =
     (if s \<ge> 75 then ''High Risk'' else if s \<ge> 50 then ''Suspicious''
      else if s \<ge> 20 then ''Monitor'' else ''Stable / Merchant'')"

definition emptySuspicionResult :: suspicion_result where
  "emptySuspicionResult =
     \<lparr>suspicion_score = 0, suspicion_label = ''Stable / Merchant'',
      acceleration_score = 0, stability_score = 0, ring_participation_bonus = 0\<rparr>"

text \<open>The pass-through rate of \<^verbatim>\<open>computeSuspicionScore\<close>.\<close>

definition passThroughRate :: "node_meta \<Rightarrow> real" where
  "passThroughRate meta =
     (let totalIn = totalReceived meta; totalOut = totalSent meta; maxIO = max totalIn totalOut
      in if maxIO > 0 then min totalIn totalOut / maxIO else 0)"

definition falsePositivePenalty :: "node_meta \<Rightarrow> real" where
  "falsePositivePenalty meta = (if txCount meta > 50 \<and> passThroughRate meta < 0.3 then 50 else 0)"

text \<open>
  \<^verbatim>\<open>computeSuspicionScore\<close>; the nested detail objects of the result repeat the values
  kept here and are left out.
\<close>

definition computeSuspicionScore ::
  "(account \<times> node_meta) list \<Rightarrow> account \<Rightarrow> string list \<Rightarrow> suspicion_result" where
  "computeSuspicionScore metas accountId detectedPatterns =
     (case map_of metas accountId of
        None \<Rightarrow> emptySuspicionResult
      | Some meta \<Rightarrow>
          (let ptr = passThroughRate meta;
               velocity = computeVelocity72h (allTimestamps meta);
               pmv = computePatternModifier detectedPatterns meta;
               fpp = falsePositivePenalty meta;
               rawScore = 35 * ptr + 35 * velocity + pmv - fpp;
               score = min 100 (max 0 (roundTo 10 rawScore))
           in \<lparr>suspicion_score = score,
               suspicion_label = suspicionLabel score,
               acceleration_score = roundTo 1000 ptr,
               stability_score = (if fpp > 0 then 1 else 0),
               ring_participation_bonus = roundTo 1000 (pmv / 100)\<rparr>))"

text \<open>
  Two readings of "the number of timestamps in the 72-hour window that starts at the
  i-th sorted timestamp": the window closed on the right, and the window open on the right.
  \<open>slidingWindowVelocity\<close> is the velocity in the specification's words, for either.
\<close>

definition windowCountClosed :: "int list \<Rightarrow> nat \<Rightarrow> nat" where
  "windowCountClosed srt i =
     length (filter (\<lambda>j. srt ! j \<le> srt ! i + window72h) [i..<length srt])"

definition windowCountRightOpen :: "int list \<Rightarrow> nat \<Rightarrow> nat" where
  "windowCountRightOpen srt i =
     length (filter (\<lambda>j. srt ! j < srt ! i + window72h) [i..<length srt])"

definition slidingWindowVelocity :: "(int list \<Rightarrow> nat \<Rightarrow> nat) \<Rightarrow> int list \<Rightarrow> real" where
  "slidingWindowVelocity cnt stamps =
     (if length stamps \<le> 1 then 1
      else real (Max (set (map (cnt (sort stamps)) [0..<length stamps]))) / real (length stamps))"





definition exampleTx :: "real \<Rightarrow> transaction" where
  "exampleTx amt =
     \<lparr>transaction_id = ''T1'', sender_id = ''A'', receiver_id = ''B'', tx_amount = amt,
      tx_timestamp = 0\<rparr>"

definition exampleEdge :: "real \<Rightarrow> edge" where
  "exampleEdge amt = \<lparr>peer = ''B'', amount = amt, timestamp = 0, txId = ''T1''\<rparr>"

section \<open>SmurfingDetector\<close>

text \<open>
  The detector maps every edge to \<^verbatim>\<open>{counterparty, timestamp, amount}\<close>; the \<open>edge\<close>
  record is reused for it, with \<open>peer\<close> as the counterparty. \<^verbatim>\<open>Date.getHours()\<close> reads
  the hour in the host's time zone; the function from an instant to that hour is the
  parameter \<open>hourOf\<close>. Timestamp lists passed to the signals are sorted ascending by the
  caller. Every signal returns an integer literal of the source.
\<close>

datatype smurf_type = fan_in | fan_out | fan_in_fan_out

record smurf_group =
  smurfType :: smurf_type
  aggregatorNode :: "account option"
  disperserNode :: "account option"
  members :: "account list"
  score :: int
  temporalWindowHours :: "real option"

definition FAN_THRESHOLD :: nat where
  "FAN_THRESHOLD = 10"

definition msPerHour :: real where
  "msPerHour = 1000 * 60 * 60"

text \<open>\<^verbatim>\<open>(timestamps[n - 1] - timestamps[0]) / (1000 * 60 * 60)\<close>\<close>

definition windowHoursOf :: "int list \<Rightarrow> real" where
  "windowHoursOf ts = real_of_int (ts ! (length ts - 1) - ts ! 0) / msPerHour"

text \<open>\<^verbatim>\<open>for (i = 1; i < ts.length; i++) deltas.push(ts[i] - ts[i - 1])\<close>\<close>

definition deltasOf :: "int list \<Rightarrow> int list" where
  "deltasOf ts = map (\<lambda>i. ts ! i - ts ! (i - 1)) [1..<length ts]"

definition scoreStructural :: "nat \<Rightarrow> int" where
  "scoreStructural fanDegree =
     (if fanDegree \<ge> 30 then 25 else if fanDegree \<ge> 20 then 20
      else if fanDegree \<ge> 15 then 15 else 10)"

definition scoreTemporalBurst :: "int list \<Rightarrow> int" where
  "scoreTemporalBurst ts =
     (if length ts < 3 then 0
      else let deltas = map (\<lambda>d. real_of_int d / msPerHour) (deltasOf ts);
               mean = foldl (+) 0 deltas / real (length deltas);
               variance = foldl (\<lambda>s d. s + (d - mean)\<^sup>2) 0 deltas / real (length deltas);
               stdDev = sqrt variance;
               windowHours = windowHoursOf ts
           in if windowHours < 6 \<and> length ts \<ge> 10 then 25
              else if windowHours < 12 \<and> length ts \<ge> 10 then 22
              else if mean > 0 \<and> stdDev / mean < 0.3 \<and> windowHours < 24 then 20
              else if windowHours < 24 then 12
              else if windowHours < 72 then 6
              else 0)"

definition scoreOffHours :: "(int \<Rightarrow> nat) \<Rightarrow> int list \<Rightarrow> int" where
  "scoreOffHours hourOf ts =
     (if length ts < 5 then 0
      else let offHoursCount = length (filter (\<lambda>t. hourOf t \<ge> 23 \<or> hourOf t \<le> 4) ts);
               offHoursRatio = real offHoursCount / real (length ts)
           in if offHoursRatio > 0.7 then 15
              else if offHoursRatio > 0.5 then 10
              else if offHoursRatio > 0.3 then 5
              else 0)"

definition scoreVelocity :: "real list \<Rightarrow> int list \<Rightarrow> int" where
  "scoreVelocity amounts ts =
     (if length ts < 2 then 0
      else let totalAmount = foldl (+) 0 amounts;
               windowHours = max (windowHoursOf ts) 0.1;
               velocityPerHour = totalAmount / windowHours
           in if velocityPerHour > 5000 then 20
              else if velocityPerHour > 2000 then 15
              else if velocityPerHour > 1000 then 10
              else if velocityPerHour > 500 then 5
              else 0)"

text \<open>\<^verbatim>\<open>Math.round((a % 1) * 100) !== 0\<close>; the remainder takes the sign of \<open>a\<close>.\<close>

definition hasCents :: "real \<Rightarrow> bool" where
  "hasCents a =
     (let rest = a - of_int (if a \<ge> 0 then \<lfloor>a\<rfloor> else \<lceil>a\<rceil>)
      in \<lfloor>rest * 100 + 1 / 2\<rfloor> \<noteq> 0)"

text \<open>The coefficient of variation of the amounts, 0 when the mean is not positive.\<close>

definition amountsCv :: "real list \<Rightarrow> real" where
  "amountsCv amounts =
     (let avg = foldl (+) 0 amounts / real (length amounts)
      in if avg > 0
         then sqrt (foldl (\<lambda>s a. s + (a - avg)\<^sup>2) 0 amounts / real (length amounts)) / avg
         else 0)"

definition scoreBehavioralAmounts :: "real list \<Rightarrow> int" where
  "scoreBehavioralAmounts amounts =
     (if length amounts < 5 then 0
      else let cv = amountsCv amounts;
               n = real (length amounts);
               s1 = (if real (length (filter (\<lambda>a. a \<ge> 8000 \<and> a < 10000) amounts)) / n > 0.3
                     then 8 else 0);
               s2 = (if cv \<ge> 0.2 \<and> cv \<le> 0.6
                        \<and> real (length (filter (\<lambda>a. a \<ge> 200 \<and> a \<le> 3000) amounts)) / n > 0.6
                     then s1 + 5 else s1);
               s3 = (if real (length (filter hasCents amounts)) / n > 0.7 then s2 - 5 else s2)
           in max 0 (min 15 s3))"

definition scoreThroughput :: "(account \<times> node_meta) list \<Rightarrow> account \<Rightarrow> int" where
  "scoreThroughput metas node =
     (case map_of metas node of
        None \<Rightarrow> 0
      | Some meta \<Rightarrow>
          (if (case throughputRatio meta of None \<Rightarrow> False | Some r \<Rightarrow> r > 0.7 \<and> r < 1.3)
              \<and> totalReceived meta > 0 \<and> totalSent meta > 0
           then 10 else 0))"

definition dayMs :: int where
  "dayMs = 24 * 60 * 60 * 1000"

text \<open>Part C of the penalty: the first interval that more than half of the deltas are close to.\<close>

definition regularIntervalPenalty :: "int list \<Rightarrow> int" where
  "regularIntervalPenalty ts =
     (if length ts \<ge> 5
      then let deltas = deltasOf ts;
               commonIntervals = [dayMs, 7 * dayMs, 14 * dayMs, 30 * dayMs]
           in if list_ex (\<lambda>interval.
                   real (length (filter (\<lambda>d. let ratio = real_of_int d / real_of_int interval
                                              in ratio > 0.8 \<and> ratio < 1.2) deltas))
                     / real (length deltas) > 0.5) commonIntervals
              then 15 else 0
      else 0)"

text \<open>The number of receivers that are also senders.\<close>

definition overlapCount :: "account list \<Rightarrow> account list \<Rightarrow> nat" where
  "overlapCount receivers senders = length (filter (\<lambda>r. r \<in> set senders) (setOrder receivers))"

definition legitimacyPenalty ::
  "(int \<Rightarrow> nat) \<Rightarrow> adjacency \<Rightarrow> adjacency \<Rightarrow> (account \<times> node_meta) list \<Rightarrow>
   account \<Rightarrow> int list \<Rightarrow> real list \<Rightarrow> smurf_type \<Rightarrow> int" where
  "legitimacyPenalty hourOf adj radj metas node ts amounts patternType =
     (case map_of metas node of
        None \<Rightarrow> 0
      | Some meta \<Rightarrow>
          (let pA = (if length ts \<ge> 2
                     then (if windowHoursOf ts > 72 then 10 else 0)
                          + (if windowHoursOf ts > 168 then 10 else 0)
                          + (if windowHoursOf ts > 720 then 15 else 0)
                     else 0);
               pB = (if length ts \<ge> 5
                        \<and> real (length (filter (\<lambda>t. hourOf t \<ge> 8 \<and> hourOf t \<le> 18) ts))
                            / real (length ts) > 0.7
                     then 10 else 0);
               pC = regularIntervalPenalty ts;
               pD = (if length amounts \<ge> 5
                     then let rounded = map (roundTo 100) amounts;
                              maxFreq = Max (set (map (\<lambda>a. length (filter (\<lambda>b. b = a) rounded)) rounded))
                          in if real maxFreq / real (length amounts) > 0.4 then 10 else 0
                     else 0);
               senders = setOrder (map peer (edgesOf radj node));
               receivers = setOrder (map peer (edgesOf adj node));
               pE = (if patternType = fan_in \<and> length receivers \<le> 5 \<and> length senders \<ge> 15
                        \<and> real (overlapCount receivers senders) / real (max (length senders) 1) < 0.1
                     then 15 else 0);
               pF = (if patternType = fan_out \<and> length senders \<le> 5 \<and> length receivers \<ge> 10
                        \<and> overlapCount receivers senders = 0
                     then 10 else 0)
           in pA + pB + pC + pD + pE + pF))"

text \<open>\<^verbatim>\<open>Math.round\<close> of a number.\<close>

definition jsRound :: "real \<Rightarrow> int" where
  "jsRound x = \<lfloor>x + 1 / 2\<rfloor>"

definition computeSmurfScore ::
  "(int \<Rightarrow> nat) \<Rightarrow> adjacency \<Rightarrow> adjacency \<Rightarrow> (account \<times> node_meta) list \<Rightarrow>
   account \<Rightarrow> edge list \<Rightarrow> smurf_type \<Rightarrow> int" where
  "computeSmurfScore hourOf adj radj metas node transactions patternType =
     (if length transactions = 0 then 0
      else let counterparties = setOrder (map peer transactions);
               amounts = map amount transactions;
               ts = sort (map timestamp transactions);
               s = scoreStructural (length counterparties)
                   + scoreTemporalBurst ts
                   + scoreOffHours hourOf ts
                   + scoreVelocity amounts ts
                   + scoreBehavioralAmounts amounts
                   + scoreThroughput metas node
                   - legitimacyPenalty hourOf adj radj metas node ts amounts patternType
           in max 0 (min 100 (jsRound (of_int s))))"

definition timeWindowHours :: "edge list \<Rightarrow> real option" where
  "timeWindowHours txs =
     (if length txs < 2 then None
      else Some (roundTo 10 (windowHoursOf (sort (map timestamp txs)))))"

text \<open>The body of the loop of \<^verbatim>\<open>_detectFanIn\<close> for one entry of the reverse adjacency map.\<close>

definition fanInStep ::
  "(int \<Rightarrow> nat) \<Rightarrow> adjacency \<Rightarrow> adjacency \<Rightarrow> (account \<times> node_meta) list \<Rightarrow>
   account \<times> edge list \<Rightarrow> smurf_group list" where
  "fanInStep hourOf adj radj metas entry =
     (let node = fst entry; inEdges = snd entry;
          uniqueSenders = setOrder (map peer inEdges)
      in if length uniqueSenders < FAN_THRESHOLD then []
         else let sc = computeSmurfScore hourOf adj radj metas node inEdges fan_in
              in if sc \<ge> 40
                 then [\<lparr>smurfType = fan_in, aggregatorNode = Some node, disperserNode = None,
                        members = node # uniqueSenders, score = sc,
                        temporalWindowHours = timeWindowHours inEdges\<rparr>]
                 else [])"

definition fanOutStep ::
  "(int \<Rightarrow> nat) \<Rightarrow> adjacency \<Rightarrow> adjacency \<Rightarrow> (account \<times> node_meta) list \<Rightarrow>
   account \<times> edge list \<Rightarrow> smurf_group list" where
  "fanOutStep hourOf adj radj metas entry =
     (let node = fst entry; outEdges = snd entry;
          uniqueReceivers = setOrder (map peer outEdges)
      in if length uniqueReceivers < FAN_THRESHOLD then []
         else let sc = computeSmurfScore hourOf adj radj metas node outEdges fan_out
              in if sc \<ge> 40
                 then [\<lparr>smurfType = fan_out, aggregatorNode = None, disperserNode = Some node,
                        members = node # uniqueReceivers, score = sc,
                        temporalWindowHours = timeWindowHours outEdges\<rparr>]
                 else [])"

text \<open>
  The body of the loop of \<^verbatim>\<open>_detectCombinedFanInFanOut\<close>: the groups found so far are
  the state.
\<close>

definition combinedStep ::
  "(int \<Rightarrow> nat) \<Rightarrow> adjacency \<Rightarrow> adjacency \<Rightarrow> (account \<times> node_meta) list \<Rightarrow>
   smurf_group list \<Rightarrow> account \<times> node_meta \<Rightarrow> smurf_group list" where
  "combinedStep hourOf adj radj metas groups entry =
     (let node = fst entry; meta = snd entry
      in if uniqueSenders meta \<ge> FAN_THRESHOLD \<and> uniqueReceivers meta \<ge> FAN_THRESHOLD
         then let alreadyFlagged =
                    list_ex (\<lambda>g. aggregatorNode g = Some node \<or> disperserNode g = Some node) groups
              in if \<not> alreadyFlagged
                 then let inEdges = edgesOf radj node; outEdges = edgesOf adj node;
                          allTxs = inEdges @ outEdges;
                          sc = computeSmurfScore hourOf adj radj metas node allTxs fan_in_fan_out
                      in if sc \<ge> 40
                         then groups @
                              [\<lparr>smurfType = fan_in_fan_out, aggregatorNode = Some node,
                                disperserNode = Some node,
                                members = node # setOrder (map peer inEdges)
                                          @ setOrder (map peer outEdges),
                                score = sc, temporalWindowHours = timeWindowHours allTxs\<rparr>]
                         else groups
                 else groups
         else groups)"

definition detectFanIn ::
  "(int \<Rightarrow> nat) \<Rightarrow> adjacency \<Rightarrow> adjacency \<Rightarrow> (account \<times> node_meta) list \<Rightarrow> smurf_group list" where
  "detectFanIn hourOf adj radj metas = concat (map (fanInStep hourOf adj radj metas) radj)"

definition detectFanOut ::
  "(int \<Rightarrow> nat) \<Rightarrow> adjacency \<Rightarrow> adjacency \<Rightarrow> (account \<times> node_meta) list \<Rightarrow> smurf_group list" where
  "detectFanOut hourOf adj radj metas = concat (map (fanOutStep hourOf adj radj metas) adj)"

definition smurfDetect ::
  "(int \<Rightarrow> nat) \<Rightarrow> adjacency \<Rightarrow> adjacency \<Rightarrow> (account \<times> node_meta) list \<Rightarrow> smurf_group list" where
  "smurfDetect hourOf adj radj metas =
     foldl (combinedStep hourOf adj radj metas)
           (detectFanIn hourOf adj radj metas @ detectFanOut hourOf adj radj metas) metas"

section \<open>FalsePositiveFilter: temporal regularity of the payroll branch\<close>






text \<open>
  The score in the specification's words: the six signals minus the legitimacy penalty,
  clamped to [0, 100], over a transaction set.
\<close>

definition clampedSignalSum ::
  "(int \<Rightarrow> nat) \<Rightarrow> adjacency \<Rightarrow> adjacency \<Rightarrow> (account \<times> node_meta) list \<Rightarrow>
   account \<Rightarrow> edge list \<Rightarrow> smurf_type \<Rightarrow> int" where
  "clampedSignalSum hourOf adj radj metas node txs patternType =
     (let amounts = map amount txs; ts = sort (map timestamp txs)
      in max 0 (min 100
           (scoreStructural (card (set (map peer txs)))
            + scoreTemporalBurst ts
            + scoreOffHours hourOf ts
            + scoreVelocity amounts ts
            + scoreBehavioralAmounts amounts
            + scoreThroughput metas node
            - legitimacyPenalty hourOf adj radj metas node ts amounts patternType)))"

text \<open>What one iteration of the combined scan appends to the groups \<open>groups\<close>.\<close>

definition combinedEmit ::
  "(int \<Rightarrow> nat) \<Rightarrow> adjacency \<Rightarrow> adjacency \<Rightarrow> (account \<times> node_meta) list \<Rightarrow>
   smurf_group list \<Rightarrow> account \<times> node_meta \<Rightarrow> smurf_group list" where
  "combinedEmit hourOf adj radj metas groups entry =
     drop (length groups) (combinedStep hourOf adj radj metas groups entry)"

definition flagged :: "smurf_group list \<Rightarrow> account \<Rightarrow> bool" where
  "flagged groups node \<longleftrightarrow>
     (\<exists>g\<in>set groups. aggregatorNode g = Some node \<or> disperserNode g = Some node)"

text \<open>Ten senders pay 9,500 each to the account H within ninety minutes around midday.\<close>

definition smurfSenders :: "account list" where
  "smurfSenders = [''S0'', ''S1'', ''S2'', ''S3'', ''S4'', ''S5'', ''S6'', ''S7'', ''S8'', ''S9'']"

definition smurfTxs :: "transaction list" where
  "smurfTxs =
     map (\<lambda>(s, k). \<lparr>transaction_id = ''T'', sender_id = s, receiver_id = ''H'', tx_amount = 9500,
                     tx_timestamp = 43200000 + k * 600000\<rparr>)
         (zip smurfSenders [0, 1, 2, 3, 4, 5, 6, 7, 8, 9])"

definition smurfInEdges :: "edge list" where
  "smurfInEdges =
     map (\<lambda>(s, k). \<lparr>peer = s, amount = 9500, timestamp = 43200000 + k * 600000, txId = ''T''\<rparr>)
         (zip smurfSenders [0, 1, 2, 3, 4, 5, 6, 7, 8, 9])"

text \<open>The hour of the day in UTC.\<close>

definition utcHour :: "int \<Rightarrow> nat" where
  "utcHour t = nat ((t div 3600000) mod 24)"

section \<open>ShellNetworkDetector\<close>

datatype amount_pattern = exact_passthrough | gradual_decay | mixed

record shell_chain =
  chain :: "account list"
  shellAccounts :: "account list"
  hopAmounts :: "real list"
  hopTimestamps :: "int list"
  amountPattern :: amount_pattern
  chainScore :: int

definition MAX_CHAIN_LENGTH :: nat where
  "MAX_CHAIN_LENGTH = 7"

definition MIN_CHAIN_LENGTH :: nat where
  "MIN_CHAIN_LENGTH = 4"

definition SHELL_TX_THRESHOLD :: nat where
  "SHELL_TX_THRESHOLD = 3"

definition AMOUNT_COHERENCE_MAX_DROP :: real where
  "AMOUNT_COHERENCE_MAX_DROP = 10000"

text \<open>The test that puts a node into the set \<^verbatim>\<open>shellNodes\<close>.\<close>

definition isShell :: "node_meta \<Rightarrow> bool" where
  "isShell meta \<longleftrightarrow> txCount meta \<le> SHELL_TX_THRESHOLD \<and> inDegree meta \<ge> 1 \<and> outDegree meta \<ge> 1"

text \<open>The set \<^verbatim>\<open>shellNodes\<close>, in the insertion order of the metadata map.\<close>

definition shellNodesOf :: "(account \<times> node_meta) list \<Rightarrow> account list" where
  "shellNodesOf metas = map fst (filter (\<lambda>entry. isShell (snd entry)) metas)"

definition classifyAmountPattern :: "real list \<Rightarrow> amount_pattern" where
  "classifyAmountPattern amounts =
     (if length amounts < 2 then mixed
      else let ratios = map (\<lambda>i. amounts ! i / amounts ! (i - 1)) [1..<length amounts];
               allEqual = list_all (\<lambda>ratio. \<not> \<bar>ratio - 1\<bar> > 0.01) ratios;
               decayCount = length (filter (\<lambda>ratio. ratio \<ge> 0.80 \<and> ratio < 0.99) ratios)
           in if allEqual then exact_passthrough
              else if real decayCount / real (length amounts - 1) \<ge> 0.5 then gradual_decay
              else mixed)"

definition scoreChain ::
  "(account \<times> node_meta) list \<Rightarrow> account list \<Rightarrow> real list \<Rightarrow> int list \<Rightarrow> int" where
  "scoreChain metas path amounts stamps =
     (let s1 = 45 + (if length path \<ge> 6 then 20 else if length path \<ge> 5 then 15
                     else if length path \<ge> 4 then 10 else 5);
          s2 = (if length amounts \<ge> 2
                then (case classifyAmountPattern amounts of
                        exact_passthrough \<Rightarrow> s1 + 15
                      | gradual_decay \<Rightarrow> s1 + 20
                      | mixed \<Rightarrow> s1 + 10)
                else s1);
          s3 = (if length stamps \<ge> 2
                then let ds = deltasOf stamps;
                         sequential = list_all (\<lambda>d. \<not> d < 0) ds;
                         totalTimeMs = foldl (\<lambda>t d. t + \<bar>d\<bar>) 0 ds;
                         hoursTotal = real_of_int totalTimeMs / msPerHour
                     in if sequential
                        then (if hoursTotal < 24 then s2 + 15
                              else if hoursTotal < 72 then s2 + 10
                              else if hoursTotal < 168 then s2 + 5 else s2)
                        else s2
                else s2);
          shells = butlast (tl path);
          veryLowActivity = length (filter (\<lambda>node. case map_of metas node of
                                                      None \<Rightarrow> False | Some meta \<Rightarrow> txCount meta = 2) shells);
          s4 = (if length shells > 0 \<and> real veryLowActivity / real (length shells) > 0.5
                then s3 + 10 else s3)
      in min 100 s4)"

text \<open>
  \<^verbatim>\<open>_traceShellChain\<close>. The arrays \<^verbatim>\<open>path\<close>, \<^verbatim>\<open>amounts\<close>, \<^verbatim>\<open>timestamps\<close> and the set
  \<^verbatim>\<open>visited\<close> are extended before the recursive call and restored after it, so each
  iteration of the loop sees the values of the caller; the result is the list of chains
  pushed, in order.
\<close>

function traceShellChain ::
  "adjacency \<Rightarrow> (account \<times> node_meta) list \<Rightarrow> account list \<Rightarrow> account \<Rightarrow> account \<Rightarrow>
   account list \<Rightarrow> account list \<Rightarrow> real list \<Rightarrow> int list \<Rightarrow> shell_chain list" where
  "traceShellChain adj metas shellNodes startNode currentNode path visited amounts stamps =
     (if length path \<ge> MAX_CHAIN_LENGTH then []
      else concat (map (\<lambda>e.
             if peer e \<in> set visited then []
             else if map_of metas (peer e) = None then []
             else if last amounts - amount e > AMOUNT_COHERENCE_MAX_DROP then []
             else if amount e > last amounts then []
             else if peer e \<in> set shellNodes
                  then traceShellChain adj metas shellNodes startNode (peer e)
                         (path @ [peer e]) (peer e # visited) (amounts @ [amount e])
                         (stamps @ [timestamp e])
                  else (let intermediates = butlast (tl (path @ [peer e]))
                        in if length intermediates \<ge> 1 \<and> length (path @ [peer e]) \<ge> MIN_CHAIN_LENGTH
                              \<and> list_all (\<lambda>n. n \<in> set shellNodes) intermediates
                           then [\<lparr>chain = path @ [peer e],
                                  shellAccounts = intermediates,
                                  hopAmounts = amounts @ [amount e],
                                  hopTimestamps = stamps @ [timestamp e],
                                  amountPattern = classifyAmountPattern (amounts @ [amount e]),
                                  chainScore = scoreChain metas (path @ [peer e])
                                                 (amounts @ [amount e]) (stamps @ [timestamp e])\<rparr>]
                           else []))
             (edgesOf adj currentNode)))"
  by pat_completeness auto
termination
  by (relation "measure (\<lambda>(adj, metas, shellNodes, startNode, currentNode, path, visited, amounts, stamps).
                           MAX_CHAIN_LENGTH - length path)") auto

declare traceShellChain.simps [simp del]

text \<open>\<^verbatim>\<open>chain.join('|')\<close>\<close>

fun joinBar :: "string list \<Rightarrow> string" where
  "joinBar [] = []"
| "joinBar [x] = x"
| "joinBar (x # y # ys) = x @ ''|'' @ joinBar (y # ys)"

fun dedupChains :: "string list \<Rightarrow> shell_chain list \<Rightarrow> shell_chain list" where
  "dedupChains seen [] = []"
| "dedupChains seen (c # cs) =
     (if joinBar (chain c) \<in> set seen then dedupChains seen cs
      else c # dedupChains (joinBar (chain c) # seen) cs)"

definition deduplicateChains :: "shell_chain list \<Rightarrow> shell_chain list" where
  "deduplicateChains found = dedupChains [] found"

definition shellDetect ::
  "adjacency \<Rightarrow> adjacency \<Rightarrow> (account \<times> node_meta) list \<Rightarrow> shell_chain list" where
  "shellDetect adj radj metas =
     (let shellNodes = shellNodesOf metas
      in if length shellNodes = 0 then []
         else deduplicateChains
                (concat (map (\<lambda>shellNode.
                   concat (map (\<lambda>e.
                     if map_of metas (peer e) = None then []
                     else if peer e \<in> set shellNodes then []
                     else traceShellChain adj metas shellNodes (peer e) shellNode
                            [peer e, shellNode] [peer e, shellNode] [amount e] [timestamp e])
                     (edgesOf radj shellNode)))
                   shellNodes)))"

text \<open>
  Hop amounts never increase and never drop by more than 10,000 from one hop to the next.
\<close>

definition coherentAmounts :: "real list \<Rightarrow> bool" where
  "coherentAmounts amounts \<longleftrightarrow>
     (\<forall>i. i + 1 < length amounts \<longrightarrow>
        amounts ! (i + 1) \<le> amounts ! i \<and> amounts ! i - amounts ! (i + 1) \<le> 10000)"

text \<open>The state of the search: a non-shell start followed by shell nodes only.\<close>

definition pathOk :: "(account \<times> node_meta) list \<Rightarrow> account list \<Rightarrow> account list \<Rightarrow> real list \<Rightarrow> bool" where
  "pathOk metas shellNodes path amounts \<longleftrightarrow>
     length path \<ge> 2 \<and> length amounts + 1 = length path
     \<and> hd path \<notin> set shellNodes \<and> map_of metas (hd path) \<noteq> None
     \<and> (\<forall>n\<in>set (tl path). n \<in> set shellNodes)
     \<and> coherentAmounts amounts"

definition chainOk :: "(account \<times> node_meta) list \<Rightarrow> account list \<Rightarrow> shell_chain \<Rightarrow> bool" where
  "chainOk metas shellNodes c \<longleftrightarrow>
     4 \<le> length (chain c) \<and> length (chain c) \<le> 7
     \<and> hd (chain c) \<notin> set shellNodes \<and> map_of metas (hd (chain c)) \<noteq> None
     \<and> last (chain c) \<notin> set shellNodes \<and> map_of metas (last (chain c)) \<noteq> None
     \<and> (\<forall>n\<in>set (butlast (tl (chain c))). n \<in> set shellNodes)
     \<and> length (hopAmounts c) + 1 = length (chain c)
     \<and> coherentAmounts (hopAmounts c)"


text \<open>The exact pass-through scenario: O1, three shells, E1, 200,000 at every hop.\<close>

definition shellTxs :: "transaction list" where
  "shellTxs =
     [\<lparr>transaction_id = ''T13'', sender_id = ''O1'', receiver_id = ''SH1'', tx_amount = 200000,
       tx_timestamp = 36000000\<rparr>,
      \<lparr>transaction_id = ''T14'', sender_id = ''SH1'', receiver_id = ''SH2'', tx_amount = 200000,
       tx_timestamp = 36480000\<rparr>,
      \<lparr>transaction_id = ''T15'', sender_id = ''SH2'', receiver_id = ''SH3'', tx_amount = 200000,
       tx_timestamp = 36900000\<rparr>,
      \<lparr>transaction_id = ''T16'', sender_id = ''SH3'', receiver_id = ''E1'', tx_amount = 200000,
       tx_timestamp = 37380000\<rparr>]"

definition shellExample :: shell_chain where
  "shellExample =
     \<lparr>chain = [''O1'', ''SH1'', ''SH2'', ''SH3'', ''E1''],
      shellAccounts = [''SH1'', ''SH2'', ''SH3''],
      hopAmounts = [200000, 200000, 200000, 200000],
      hopTimestamps = [36000000, 36480000, 36900000, 37380000],
      amountPattern = exact_passthrough,
      chainScore = 100\<rparr>"

section \<open>Fraud rings and the ring merger\<close>

datatype pattern_type = cycle | smurf smurf_type | shell_network

text \<open>
  A fraud ring as \<^verbatim>\<open>analyze\<close> builds it. A key that the object does not have, or whose
  value is \<^verbatim>\<open>null\<close>, is \<open>None\<close>.
\<close>

record ring =
  ring_id :: string
  member_accounts :: "account list"
  pattern_type :: pattern_type
  risk_score :: real
  cycle_length :: "nat option"
  chain_length :: "nat option"
  amount_pattern :: "amount_pattern option"
  temporal_window_hours :: "real option"
  ring_aggregator :: "account option"
  ring_disperser :: "account option"

text \<open>
  The union-find structure of \<^verbatim>\<open>_mergeOverlappingRings\<close>: \<^verbatim>\<open>parent\<close> maps the indices
  \<open>0 ..< n\<close> to indices and is a list. \<^verbatim>\<open>find\<close> halves the path while it walks; it returns
  the updated \<^verbatim>\<open>parent\<close> and the root, and \<open>None\<close> stands for a loop that never ends.
\<close>

partial_function (option) find :: "nat list \<Rightarrow> nat \<Rightarrow> (nat list \<times> nat) option" where
  "find parent x =
     (if parent ! x \<noteq> x
      then find (parent[x := parent ! (parent ! x)]) ((parent[x := parent ! (parent ! x)]) ! x)
      else Some (parent, x))"

declare find.simps [code]

definition union :: "nat list \<Rightarrow> nat \<Rightarrow> nat \<Rightarrow> nat list option" where
  "union parent a b =
     (case find parent a of
        None \<Rightarrow> None
      | Some (p1, ra) \<Rightarrow>
          (case find p1 b of
             None \<Rightarrow> None
           | Some (p2, rb) \<Rightarrow> Some (if ra \<noteq> rb then p2[ra := rb] else p2)))"

text \<open>\<^verbatim>\<open>overlap / minSize\<close> for the member sets of two rings.\<close>

definition overlapRatio :: "ring \<Rightarrow> ring \<Rightarrow> real" where
  "overlapRatio ri rj =
     (let setI = setOrder (member_accounts ri);
          setJ = setOrder (member_accounts rj);
          overlap = length (filter (\<lambda>m. m \<in> set setJ) setI);
          minSize = min (length setI) (length setJ)
      in real overlap / real minSize)"

definition significantOverlap :: "ring \<Rightarrow> ring \<Rightarrow> bool" where
  "significantOverlap ri rj \<longleftrightarrow> pattern_type ri = pattern_type rj \<and> overlapRatio ri rj > 0.5"

text \<open>The index pairs of the two nested loops, in the order they are visited.\<close>

definition indexPairs :: "nat \<Rightarrow> (nat \<times> nat) list" where
  "indexPairs n = concat (map (\<lambda>i. map (\<lambda>j. (i, j)) [i + 1..<n]) [0..<n])"

definition unionStep :: "ring list \<Rightarrow> nat \<times> nat \<Rightarrow> nat list option \<Rightarrow> nat list option" where
  "unionStep rings ij po =
     (case po of
        None \<Rightarrow> None
      | Some parent \<Rightarrow>
          if significantOverlap (rings ! fst ij) (rings ! snd ij)
          then union parent (fst ij) (snd ij) else Some parent)"

definition unionAll :: "ring list \<Rightarrow> nat list option" where
  "unionAll rings = fold (unionStep rings) (indexPairs (length rings)) (Some [0..<length rings])"

text \<open>\<^verbatim>\<open>if (!groups.has(root)) groups.set(root, []); groups.get(root).push(ring)\<close>\<close>

fun pushRing :: "nat \<Rightarrow> ring \<Rightarrow> (nat \<times> ring list) list \<Rightarrow> (nat \<times> ring list) list" where
  "pushRing k r [] = [(k, [r])]"
| "pushRing k r ((k', rs) # rest) =
     (if k' = k then (k', rs @ [r]) # rest else (k', rs) # pushRing k r rest)"

definition groupStep ::
  "ring list \<Rightarrow> nat \<Rightarrow> (nat list \<times> (nat \<times> ring list) list) option \<Rightarrow>
   (nat list \<times> (nat \<times> ring list) list) option" where
  "groupStep rings i st =
     (case st of
        None \<Rightarrow> None
      | Some (parent, groups) \<Rightarrow>
          (case find parent i of
             None \<Rightarrow> None
           | Some (parent', rt) \<Rightarrow> Some (parent', pushRing rt (rings ! i) groups)))"

definition groupByRoot :: "ring list \<Rightarrow> nat list \<Rightarrow> (nat \<times> ring list) list option" where
  "groupByRoot rings parent =
     map_option snd (fold (groupStep rings) [0..<length rings] (Some (parent, [])))"

text \<open>One group becomes one ring: a single ring is kept as it is, several are merged.\<close>

definition mergeGroup :: "ring list \<Rightarrow> ring" where
  "mergeGroup grp =
     (if length grp = 1 then grp ! 0
      else \<lparr>ring_id = ring_id (grp ! 0),
            member_accounts = setOrder (concat (map member_accounts grp)),
            pattern_type = pattern_type (grp ! 0),
            risk_score = fold (\<lambda>r maxScore. max maxScore (risk_score r)) grp 0,
            cycle_length = None,
            chain_length = None,
            amount_pattern = None,
            temporal_window_hours = None,
            ring_aggregator = None,
            ring_disperser = None\<rparr>)"

definition mergeOverlappingRings :: "ring list \<Rightarrow> ring list option" where
  "mergeOverlappingRings rings =
     (if length rings \<le> 1 then Some rings
      else (case unionAll rings of
              None \<Rightarrow> None
            | Some parent \<Rightarrow>
                (case groupByRoot rings parent of
                   None \<Rightarrow> None
                 | Some groups \<Rightarrow> Some (map (\<lambda>g. mergeGroup (snd g)) groups))))"

text \<open>The state of the union-find structure, with the root \<open>R\<close> and a rank \<open>rk\<close> of every index.\<close>

definition ufInv :: "nat \<Rightarrow> (nat \<Rightarrow> nat) \<Rightarrow> (nat \<Rightarrow> nat) \<Rightarrow> nat list \<Rightarrow> bool" where
  "ufInv n R rk parent \<longleftrightarrow>
     length parent = n \<and>
     (\<forall>x<n. parent ! x < n \<and> R (parent ! x) = R x \<and> R x < n
            \<and> (parent ! x = x \<longleftrightarrow> R x = x)
            \<and> (parent ! x \<noteq> x \<longrightarrow> rk x < rk (parent ! x)))"

text \<open>
  The components of the input in the specification's words. Two rings are linked when the
  merger unions them: they have the same pattern type and an overlap ratio above 0.5. Two
  indices are in the same component when a chain of links joins them. \<open>componentOf\<close> lists
  the indices of the component of an index in increasing order, and \<open>componentLeaders\<close> lists,
  in increasing order, the indices that are the smallest of their component.
\<close>

definition overlapEdges :: "ring list \<Rightarrow> (nat \<times> nat) set" where
  "overlapEdges rings =
     {p. fst p < snd p \<and> snd p < length rings
         \<and> significantOverlap (rings ! fst p) (rings ! snd p)}"

definition sameComponent :: "ring list \<Rightarrow> nat \<Rightarrow> nat \<Rightarrow> bool" where
  "sameComponent rings i j \<longleftrightarrow> (i, j) \<in> (overlapEdges rings \<union> (overlapEdges rings)\<inverse>)\<^sup>*"

definition componentOf :: "ring list \<Rightarrow> nat \<Rightarrow> nat list" where
  "componentOf rings i = filter (\<lambda>j. sameComponent rings i j) [0..<length rings]"

definition componentLeaders :: "ring list \<Rightarrow> nat list" where
  "componentLeaders rings =
     filter (\<lambda>i. \<forall>j<i. \<not> sameComponent rings j i) [0..<length rings]"

text \<open>
  The structure is in a good state for the index pairs \<open>D\<close>: it is a forest, every index has
  the pattern type of its root and is in the component of its root, and the two indices of
  every pair in \<open>D\<close> have the same root.
\<close>

definition ufState :: "ring list \<Rightarrow> (nat \<times> nat) set \<Rightarrow> nat list \<Rightarrow> bool" where
  "ufState rings D parent \<longleftrightarrow>
     (\<exists>R rk. ufInv (length rings) R rk parent
        \<and> (\<forall>x<length rings. pattern_type (rings ! R x) = pattern_type (rings ! x))
        \<and> (\<forall>x<length rings. sameComponent rings x (R x))
        \<and> (\<forall>p\<in>D. R (fst p) = R (snd p)))"

text \<open>
  The groups after the indices below \<open>t\<close> have been grouped by the root \<open>R\<close>: one group for
  every index that is the first with its root, holding the rings with that root in order.
\<close>

definition groupsUpTo :: "ring list \<Rightarrow> (nat \<Rightarrow> nat) \<Rightarrow> nat \<Rightarrow> (nat \<times> ring list) list" where
  "groupsUpTo rings R t =
     map (\<lambda>i. (R i, map ((!) rings) (filter (\<lambda>j. R j = R i) [0..<t])))
         (filter (\<lambda>i. \<forall>j<i. R j \<noteq> R i) [0..<t])"

text \<open>
  The groups built from the indices \<open>D\<close>: keys occur once, the ring of every index in \<open>D\<close>
  is in the group of its root, and every group is a non-empty list of such rings.
\<close>

definition groupsOk ::
  "ring list \<Rightarrow> (nat \<Rightarrow> nat) \<Rightarrow> nat set \<Rightarrow> (nat \<times> ring list) list \<Rightarrow> bool" where
  "groupsOk rings R D groups \<longleftrightarrow>
     distinct (map fst groups)
     \<and> (\<forall>i\<in>D. \<exists>rs. (R i, rs) \<in> set groups \<and> rings ! i \<in> set rs)
     \<and> (\<forall>g\<in>set groups. snd g \<noteq> []
            \<and> (\<forall>r\<in>set (snd g). \<exists>i\<in>D. r = rings ! i \<and> R i = fst g))"

text \<open>Three cycle rings: the first two overlap in two of three members, the third in one.\<close>

definition cycleRing :: "string \<Rightarrow> account list \<Rightarrow> ring" where
  "cycleRing rid ms =
     \<lparr>ring_id = rid, member_accounts = ms, pattern_type = cycle, risk_score = 80,
      cycle_length = Some (length ms), chain_length = None, amount_pattern = None,
      temporal_window_hours = None, ring_aggregator = None, ring_disperser = None\<rparr>"

definition shellRing :: "string \<Rightarrow> account list \<Rightarrow> ring" where
  "shellRing rid ms =
     \<lparr>ring_id = rid, member_accounts = ms, pattern_type = shell_network, risk_score = 90,
      cycle_length = None, chain_length = Some (length ms), amount_pattern = Some exact_passthrough,
      temporal_window_hours = None, ring_aggregator = None, ring_disperser = None\<rparr>"


definition cycleRings :: "ring list" where
  "cycleRings =
     [cycleRing ''RING_001'' [''A'', ''B'', ''C''],
      cycleRing ''RING_002'' [''B'', ''C'', ''D''],
      cycleRing ''RING_003'' [''A'', ''D'', ''E'']]"

text \<open>What the merger makes of rings that it unions: only four fields are set.\<close>

definition mergedRing :: "string \<Rightarrow> account list \<Rightarrow> pattern_type \<Rightarrow> real \<Rightarrow> ring" where
  "mergedRing rid ms pt sc =
     \<lparr>ring_id = rid, member_accounts = ms, pattern_type = pt, risk_score = sc,
      cycle_length = None, chain_length = None, amount_pattern = None,
      temporal_window_hours = None, ring_aggregator = None, ring_disperser = None\<rparr>"

text \<open>Two shell chains that share their start and both shells.\<close>

definition shellRings :: "ring list" where
  "shellRings =
     [shellRing ''RING_001'' [''O1'', ''S1'', ''S2'', ''E1''],
      shellRing ''RING_002'' [''O1'', ''S1'', ''S2'', ''E2'']]"

section \<open>The engine: suspicious accounts and their ring ids\<close>

text \<open>
  The value that \<^verbatim>\<open>accountSuspicionMap\<close> holds for an account. The map is a JavaScript
  \<^verbatim>\<open>Map\<close> and is an association list in insertion order; \<^verbatim>\<open>patterns\<close> is a
  \<^verbatim>\<open>Set\<close> and is the list of its elements in insertion order.
\<close>

record suspicion_data =
  maxScore :: real
  patterns :: "string list"
  ringIds :: "string list"

text \<open>\<^verbatim>\<open>_addAccountSuspicion(map, accountId, score, pattern, ringId)\<close>\<close>

definition addAccountSuspicion ::
  "(account \<times> suspicion_data) list \<Rightarrow> account \<Rightarrow> real \<Rightarrow> string \<Rightarrow> string
   \<Rightarrow> (account \<times> suspicion_data) list" where
  "addAccountSuspicion m accountId sc pattern ringId =
     (let m1 = (if accountId \<in> fst ` set m then m
                else m @ [(accountId, \<lparr>maxScore = sc, patterns = [], ringIds = []\<rparr>)])
      in map (\<lambda>entry.
                if fst entry = accountId
                then (accountId,
                      (snd entry)\<lparr>maxScore := max (maxScore (snd entry)) sc,
                                  patterns := (if pattern \<in> set (patterns (snd entry))
                                               then patterns (snd entry)
                                               else patterns (snd entry) @ [pattern]),
                                  ringIds := (if ringId \<in> set (ringIds (snd entry))
                                              then ringIds (snd entry)
                                              else ringIds (snd entry) @ [ringId])\<rparr>)
                else entry) m1)"

text \<open>\<^verbatim>\<open>String(n)\<close> for a natural number, and \<^verbatim>\<open>`RING_${String(n).padStart(3, '0')}`\<close>.\<close>

function decimal :: "nat \<Rightarrow> string" where
  "decimal n = (if n < 10 then [''0123456789'' ! n]
                else decimal (n div 10) @ [''0123456789'' ! (n mod 10)])"
  by pat_completeness auto
termination
  by (relation "measure (\<lambda>n. n)") auto

declare decimal.simps [simp del]

definition ringIdOf :: "nat \<Rightarrow> string" where
  "ringIdOf n = ''RING_'' @ replicate (3 - length (decimal n)) CHR ''0'' @ decimal n"

text \<open>
  The state of step 5 of \<^verbatim>\<open>analyze\<close>: the ring counter, the raw rings and the map of the
  flagged accounts.
\<close>

record engine_state =
  ringCounter :: nat
  fraudRings :: "ring list"
  accountSuspicionMap :: "(account \<times> suspicion_data) list"

text \<open>\<^verbatim>\<open>x || null\<close> for a string or \<^verbatim>\<open>null\<close>: the empty string is falsy.\<close>

definition orNull :: "string option \<Rightarrow> string option" where
  "orNull x = (case x of None \<Rightarrow> None | Some s \<Rightarrow> if s = [] then None else Some s)"

text \<open>
  The body of the loop over the cycles. \<^verbatim>\<open>scoreCycle\<close> is the score that the cycle
  detector gives to a cycle.
\<close>

definition processCycle :: "(account list \<Rightarrow> real) \<Rightarrow> account list \<Rightarrow> engine_state \<Rightarrow> engine_state" where
  "processCycle scoreCycle cyc st =
     (let ringId = ringIdOf (ringCounter st);
          sc = scoreCycle cyc;
          patternStr = ''cycle_length_'' @ decimal (length cyc)
      in \<lparr>ringCounter = ringCounter st + 1,
          fraudRings = fraudRings st @
            [\<lparr>ring_id = ringId, member_accounts = cyc, pattern_type = cycle,
              risk_score = roundTo 10 sc, cycle_length = Some (length cyc), chain_length = None,
              amount_pattern = None, temporal_window_hours = None, ring_aggregator = None,
              ring_disperser = None\<rparr>],
          accountSuspicionMap =
            fold (\<lambda>account m. addAccountSuspicion m account sc patternStr ringId) cyc
                 (accountSuspicionMap st)\<rparr>)"

text \<open>
  The body of the loop over the smurfing groups. \<^verbatim>\<open>if (group.temporalWindowHours)\<close>
  holds for a number other than zero.
\<close>

definition smurfPatterns :: "smurf_group \<Rightarrow> string list" where
  "smurfPatterns grp =
     (if smurfType grp = fan_in \<or> smurfType grp = fan_in_fan_out then [''fan_in''] else [])
     @ (if smurfType grp = fan_out \<or> smurfType grp = fan_in_fan_out then [''fan_out''] else [])
     @ (case temporalWindowHours grp of
          None \<Rightarrow> []
        | Some w \<Rightarrow> if w \<noteq> 0 then [''high_velocity''] else [])"

definition processSmurf :: "smurf_group \<Rightarrow> engine_state \<Rightarrow> engine_state" where
  "processSmurf grp st =
     (let ringId = ringIdOf (ringCounter st);
          ms = setOrder (members grp);
          pats = smurfPatterns grp
      in \<lparr>ringCounter = ringCounter st + 1,
          fraudRings = fraudRings st @
            [\<lparr>ring_id = ringId, member_accounts = ms, pattern_type = smurf (smurfType grp),
              risk_score = roundTo 10 (of_int (score grp)), cycle_length = None,
              chain_length = None, amount_pattern = None,
              temporal_window_hours = temporalWindowHours grp,
              ring_aggregator = orNull (aggregatorNode grp),
              ring_disperser = orNull (disperserNode grp)\<rparr>],
          accountSuspicionMap =
            fold (\<lambda>account m.
                    fold (\<lambda>pattern m'. addAccountSuspicion m' account (of_int (score grp)) pattern ringId)
                         pats m)
                 ms (accountSuspicionMap st)\<rparr>)"

text \<open>The body of the loop over the shell chains.\<close>

definition processShell :: "shell_chain \<Rightarrow> engine_state \<Rightarrow> engine_state" where
  "processShell c st =
     (let ringId = ringIdOf (ringCounter st)
      in \<lparr>ringCounter = ringCounter st + 1,
          fraudRings = fraudRings st @
            [\<lparr>ring_id = ringId, member_accounts = chain c, pattern_type = shell_network,
              risk_score = roundTo 10 (of_int (chainScore c)), cycle_length = None,
              chain_length = Some (length (chain c)), amount_pattern = Some (amountPattern c),
              temporal_window_hours = None, ring_aggregator = None, ring_disperser = None\<rparr>],
          accountSuspicionMap =
            fold (\<lambda>account m.
                    addAccountSuspicion m account (of_int (chainScore c))
                      (if account \<in> set (shellAccounts c) then ''shell_intermediary''
                       else ''shell_network_endpoint'')
                      ringId)
                 (chain c) (accountSuspicionMap st)\<rparr>)"

text \<open>Step 5 of \<^verbatim>\<open>analyze\<close>: the three loops, from the counter 1 and an empty map.\<close>

definition buildRings ::
  "(account list \<Rightarrow> real) \<Rightarrow> account list list \<Rightarrow> smurf_group list \<Rightarrow> shell_chain list
   \<Rightarrow> engine_state" where
  "buildRings scoreCycle cycles smurfingGroups shellChains =
     fold processShell shellChains
       (fold processSmurf smurfingGroups
          (fold (processCycle scoreCycle) cycles
             \<lparr>ringCounter = 1, fraudRings = [], accountSuspicionMap = []\<rparr>))"

text \<open>
  A suspicious account of the result. Its \<^verbatim>\<open>ring_id\<close> is first \<^verbatim>\<open>data.ringIds[0]\<close>,
  which is \<^verbatim>\<open>undefined\<close> (\<open>None\<close>) for an empty array; the label is set by the scoring
  engine. The fields \<^verbatim>\<open>suspicion_score\<close>, \<^verbatim>\<open>suspicion_label\<close> and \<^verbatim>\<open>ring_id\<close> have
  the prefix \<open>acc_\<close> here.
\<close>

record suspicious_account =
  account_id :: account
  acc_suspicion_score :: real
  acc_suspicion_label :: "string option"
  detected_patterns :: "string list"
  acc_ring_id :: "string option"

definition suspiciousAccountsOf :: "(account \<times> suspicion_data) list \<Rightarrow> suspicious_account list" where
  "suspiciousAccountsOf m =
     map (\<lambda>entry. \<lparr>account_id = fst entry,
                    acc_suspicion_score = roundTo 10 (maxScore (snd entry)),
                    acc_suspicion_label = None,
                    detected_patterns = patterns (snd entry),
                    acc_ring_id = (case ringIds (snd entry) of [] \<Rightarrow> None | r # rs \<Rightarrow> Some r)\<rparr>) m"

text \<open>
  \<^verbatim>\<open>FalsePositiveFilter.filterResults\<close>. The sets \<^verbatim>\<open>legitimateAccounts\<close> and
  \<^verbatim>\<open>legitimateHubs\<close> are what \<^verbatim>\<open>detectLegitimate\<close> has found; they are parameters here.
  \<open>filterRing\<close> is the body of the loop over the rings: \<open>None\<close> when the ring is dropped.
\<close>

definition filterRing :: "account set \<Rightarrow> account set \<Rightarrow> ring \<Rightarrow> ring option" where
  "filterRing legitimateAccounts legitimateHubs r =
     (let centralNode = orNull (case orNull (ring_aggregator r) of
                                  Some a \<Rightarrow> Some a
                                | None \<Rightarrow> ring_disperser r)
      in if (case centralNode of Some c \<Rightarrow> c \<in> legitimateHubs | None \<Rightarrow> False) then None
         else if (\<exists>a\<in>set (member_accounts r). a \<in> legitimateHubs) then None
         else (let filteredMembers = filter (\<lambda>a. a \<notin> legitimateAccounts) (member_accounts r)
               in if length filteredMembers \<ge> 3
                  then Some (r\<lparr>member_accounts := filteredMembers\<rparr>)
                  else None))"

definition filterRings :: "account set \<Rightarrow> account set \<Rightarrow> ring list \<Rightarrow> ring list" where
  "filterRings legitimateAccounts legitimateHubs rings =
     List.map_filter (filterRing legitimateAccounts legitimateHubs) rings"

definition filterAccounts :: "account set \<Rightarrow> suspicious_account list \<Rightarrow> suspicious_account list" where
  "filterAccounts legitimateAccounts accs =
     filter (\<lambda>acc. account_id acc \<notin> legitimateAccounts) accs"

text \<open>\<^verbatim>\<open>xs.sort((a, b) => b.suspicion_score - a.suspicion_score)\<close>, a stable sort.\<close>

definition sortByScoreDesc :: "suspicious_account list \<Rightarrow> suspicious_account list" where
  "sortByScoreDesc accs = sort_key (\<lambda>a. - acc_suspicion_score a) accs"

text \<open>The ids given after the merge: the ring at index \<open>idx\<close> gets the number \<open>idx + 1\<close>.\<close>

definition reassignIds :: "ring list \<Rightarrow> ring list" where
  "reassignIds mergedRings =
     map (\<lambda>p. (snd p)\<lparr>ring_id := ringIdOf (fst p + 1)\<rparr>) (enumerate 0 mergedRings)"

text \<open>
  \<^verbatim>\<open>ringMapping\<close>: every member of every ring is set, ring after ring, so the id of a later
  ring replaces the id of an earlier ring.
\<close>

definition ringMappingOf :: "ring list \<Rightarrow> account \<rightharpoonup> string" where
  "ringMappingOf rings =
     fold (\<lambda>r m. fold (\<lambda>member m'. m'(member \<mapsto> ring_id r)) (member_accounts r) m)
          rings Map.empty"

text \<open>\<^verbatim>\<open>ringMapping.get(acc.account_id) || acc.ring_id\<close>; the empty string is falsy.\<close>

definition assignRingId :: "(account \<rightharpoonup> string) \<Rightarrow> suspicious_account \<Rightarrow> suspicious_account" where
  "assignRingId ringMapping acc =
     acc\<lparr>acc_ring_id := (case orNull (ringMapping (account_id acc)) of
                           Some r \<Rightarrow> Some r
                         | None \<Rightarrow> acc_ring_id acc)\<rparr>"

text \<open>
  \<^verbatim>\<open>scoreAllAccounts\<close>: the loop skips an account id that it has processed, sets the score
  and the label and keeps the other fields; the result is sorted by the score.
\<close>

fun dedupById :: "account list \<Rightarrow> suspicious_account list \<Rightarrow> suspicious_account list" where
  "dedupById processedIds [] = []"
| "dedupById processedIds (acc # accs) =
     (if account_id acc \<in> set processedIds then dedupById processedIds accs
      else acc # dedupById (account_id acc # processedIds) accs)"

definition scoreAllAccounts ::
  "(account \<times> node_meta) list \<Rightarrow> suspicious_account list \<Rightarrow> suspicious_account list" where
  "scoreAllAccounts metas accounts =
     sortByScoreDesc
       (map (\<lambda>acc. let scoring = computeSuspicionScore metas (account_id acc) (detected_patterns acc)
                    in acc\<lparr>acc_suspicion_score := suspicion_score scoring,
                           acc_suspicion_label := Some (suspicion_label scoring)\<rparr>)
            (dedupById [] accounts))"

text \<open>
  \<^verbatim>\<open>scoreAllRings\<close> maps every ring to the same ring with a new risk score, in the same
  order. \<open>riskOf\<close> stands for the risk score that \<^verbatim>\<open>computeRiskScore\<close> computes for a ring
  from the scored accounts and the transactions.
\<close>

definition scoreAllRings ::
  "(suspicious_account list \<Rightarrow> ring \<Rightarrow> real) \<Rightarrow> ring list \<Rightarrow> suspicious_account list \<Rightarrow> ring list" where
  "scoreAllRings riskOf rings scoredAccounts =
     map (\<lambda>r. r\<lparr>risk_score := riskOf scoredAccounts r\<rparr>) rings"

text \<open>The two lists of the result of \<^verbatim>\<open>analyze\<close>.\<close>

record analysis =
  suspicious_accounts :: "suspicious_account list"
  fraud_rings :: "ring list"

text \<open>
  \<^verbatim>\<open>analyze\<close> from step 5 on. The cycles, the smurfing groups and the shell chains are
  what the three detectors have returned.
\<close>

definition analyze ::
  "(account \<times> node_meta) list \<Rightarrow> (account list \<Rightarrow> real) \<Rightarrow> (suspicious_account list \<Rightarrow> ring \<Rightarrow> real)
   \<Rightarrow> account set \<Rightarrow> account set
   \<Rightarrow> account list list \<Rightarrow> smurf_group list \<Rightarrow> shell_chain list \<Rightarrow> analysis option" where
  "analyze metas scoreCycle riskOf legitimateAccounts legitimateHubs cycles smurfingGroups shellChains =
     (let st = buildRings scoreCycle cycles smurfingGroups shellChains;
          suspiciousAccounts = suspiciousAccountsOf (accountSuspicionMap st);
          filteredAccounts = sortByScoreDesc (filterAccounts legitimateAccounts suspiciousAccounts);
          filteredRings = filterRings legitimateAccounts legitimateHubs (fraudRings st)
      in case mergeOverlappingRings filteredRings of
           None \<Rightarrow> None
         | Some mergedRings \<Rightarrow>
             (let ringsWithIds = reassignIds mergedRings;
                  ringMapping = ringMappingOf ringsWithIds;
                  accountsWithRingIds = map (assignRingId ringMapping) filteredAccounts;
                  scoredAccounts = scoreAllAccounts metas accountsWithRingIds;
                  scoredRings = scoreAllRings riskOf ringsWithIds scoredAccounts
              in Some \<lparr>suspicious_accounts = scoredAccounts, fraud_rings = scoredRings\<rparr>))"

text \<open>The rings of a list that have an account among their members, in the order of the list.\<close>

definition ringsContaining :: "account \<Rightarrow> ring list \<Rightarrow> ring list" where
  "ringsContaining a rings = filter (\<lambda>r. a \<in> set (member_accounts r)) rings"

text \<open>\<^verbatim>\<open>data.ringIds[0]\<close> of an account in the map.\<close>

definition primaryRing :: "(account \<times> suspicion_data) list \<Rightarrow> account \<Rightarrow> string option" where
  "primaryRing m a =
     (case map_of m a of
        None \<Rightarrow> None
      | Some d \<Rightarrow> (case ringIds d of [] \<Rightarrow> None | r # rs \<Rightarrow> Some r))"

text \<open>
  What holds of the state between the iterations of the three loops: the keys of the map are
  the members of the raw rings, and the first ring id of an account is the id of the first
  raw ring that has the account as a member.
\<close>

definition engineInv :: "engine_state \<Rightarrow> bool" where
  "engineInv st \<longleftrightarrow>
     distinct (map fst (accountSuspicionMap st))
     \<and> (\<forall>a. (a \<in> fst ` set (accountSuspicionMap st)) = (ringsContaining a (fraudRings st) \<noteq> []))
     \<and> (\<forall>a. primaryRing (accountSuspicionMap st) a
             = (case ringsContaining a (fraudRings st) of
                  [] \<Rightarrow> None
                | r # rs \<Rightarrow> Some (ring_id r)))"

text \<open>
  Three cycles: the first two share one account, and the third has the legitimate account
  \<open>L\<close>.
\<close>

definition ringIdCycles :: "account list list" where
  "ringIdCycles = [[''A'', ''B'', ''C''], [''A'', ''D'', ''E''], [''X'', ''Y'', ''L'']]"

section \<open>Velocity over the 72-hour window\<close>

lemma scanWindow_takeWhile:
  "j \<le> length srt \<Longrightarrow> scanWindow srt w j = j + length (takeWhile (\<lambda>t. t \<le> w) (drop j srt))"
proof (induction srt w j rule: scanWindow.induct)
  case (1 srt w j)
  show ?case
  proof (cases "j < length srt \<and> srt ! j \<le> w")
    case True
    then have d: "drop j srt = srt ! j # drop (Suc j) srt"
      by (simp add: Cons_nth_drop_Suc)
    from True 1 show ?thesis
      by (subst scanWindow.simps) (simp add: d)
  next
    case False
    show ?thesis
    proof (cases "j < length srt")
      case True
      then have d: "drop j srt = srt ! j # drop (Suc j) srt"
        by (simp add: Cons_nth_drop_Suc)
      from True False show ?thesis
        by (subst scanWindow.simps) (simp add: d)
    next
      case False
      then show ?thesis using 1(2)
        by (subst scanWindow.simps) simp
    qed
  qed
qed

lemma takeWhile_sorted_filter:
  "sorted (xs::int list) \<Longrightarrow> takeWhile (\<lambda>t. t \<le> w) xs = filter (\<lambda>t. t \<le> w) xs"
proof (induction xs)
  case Nil
  then show ?case by simp
next
  case (Cons a xs)
  show ?case
  proof (cases "a \<le> w")
    case True
    with Cons show ?thesis by simp
  next
    case False
    with Cons.prems have "\<forall>x\<in>set xs. \<not> x \<le> w" by auto
    then have "filter (\<lambda>t. t \<le> w) xs = []" by (simp add: filter_empty_conv)
    with False show ?thesis by simp
  qed
qed

lemma fold_max_Max:
  "fold (\<lambda>i m. max m (f i)) is (a::nat) = Max (insert a (f ` set is))"
proof (induction "is" arbitrary: a)
  case Nil
  then show ?case by simp
next
  case (Cons i "is")
  have "Max (insert (max a (f i)) (f ` set is)) = Max (insert a (insert (f i) (f ` set is)))"
  proof (cases "f ` set is = {}")
    case True
    then show ?thesis by simp
  next
    case False
    then show ?thesis by (simp add: max.assoc)
  qed
  with Cons show ?case by simp
qed

lemma drop_as_map_nth: "drop i xs = map ((!) xs) [i..<length xs]"
proof -
  have "drop i xs = drop i (map ((!) xs) [0..<length xs])" by (simp add: map_nth)
  also have "\<dots> = map ((!) xs) [i..<length xs]" by (simp add: drop_map)
  finally show ?thesis .
qed

lemma scanWindow_count:
  assumes "sorted srt" "i < length srt"
  shows "scanWindow srt (srt ! i + window72h) i - i = windowCountClosed srt i"
proof -
  have s: "sorted (drop i srt)" using assms(1) by (simp add: sorted_wrt_drop)
  have "scanWindow srt (srt ! i + window72h) i - i
        = length (filter (\<lambda>t. t \<le> srt ! i + window72h) (drop i srt))"
    using assms(2) by (simp add: scanWindow_takeWhile takeWhile_sorted_filter [OF s])
  also have "\<dots> = windowCountClosed srt i"
    by (subst drop_as_map_nth) (simp add: windowCountClosed_def filter_map o_def)
  finally show ?thesis .
qed

lemma windowCountClosed_pos: "i < length srt \<Longrightarrow> 1 \<le> windowCountClosed srt i"
proof -
  assume a: "i < length srt"
  then have "[i..<length srt] = i # [Suc i..<length srt]" by (simp add: upt_conv_Cons)
  then show ?thesis by (simp add: windowCountClosed_def window72h_def)
qed

lemma fold_window_Max:
  assumes "sorted srt" "0 < length srt"
  shows "fold (\<lambda>i m. max m (scanWindow srt (srt ! i + window72h) i - i)) [0..<length srt] 1
         = Max (set (map (windowCountClosed srt) [0..<length srt]))"
proof -
  let ?S = "windowCountClosed srt ` set [0..<length srt]"
  have "fold (\<lambda>i m. max m (scanWindow srt (srt ! i + window72h) i - i)) [0..<length srt] 1
        = fold (\<lambda>i m. max m (windowCountClosed srt i)) [0..<length srt] 1"
    by (rule fold_cong) (simp_all add: scanWindow_count assms)
  also have "\<dots> = Max (insert 1 ?S)"
    by (rule fold_max_Max)
  also have "\<dots> = Max ?S"
  proof -
    have fin: "finite ?S" by blast
    have mem: "windowCountClosed srt 0 \<in> ?S" using assms(2) by simp
    have "1 \<le> windowCountClosed srt 0" using assms(2) by (rule windowCountClosed_pos)
    also have "\<dots> \<le> Max ?S" using fin mem by (rule Max_ge)
    finally have le: "1 \<le> Max ?S" .
    have ne: "?S \<noteq> {}" using mem by auto
    have "Max (insert 1 ?S) = max 1 (Max ?S)" using fin ne by (rule Max_insert)
    with le show ?thesis by (simp only: max_absorb2)
  qed
  finally show ?thesis by (simp only: set_map)
qed

lemma velocity_closed:
  "computeVelocity72h stamps = slidingWindowVelocity windowCountClosed stamps"
proof (cases "length stamps \<le> 1")
  case True
  then show ?thesis by (simp add: computeVelocity72h_def slidingWindowVelocity_def)
next
  case False
  have s: "sorted (sort stamps)" by simp
  have pos: "0 < length (sort stamps)" using False by (cases stamps) simp_all
  have eq: "fold (\<lambda>i m. max m (scanWindow (sort stamps) (sort stamps ! i + window72h) i - i))
                 [0..<length (sort stamps)] 1
            = Max (set (map (windowCountClosed (sort stamps)) [0..<length (sort stamps)]))"
    by (rule fold_window_Max [OF s pos])
  show ?thesis
    unfolding computeVelocity72h_def slidingWindowVelocity_def Let_def eq
    using False by simp
qed

text \<open>
  Claim C4, as the code has it: for an account with at most one timestamp the velocity is 1;
  otherwise it is the largest number of sorted timestamps lying in a window
  \<open>[t, t + 72h]\<close> that starts at one of them, divided by the number of timestamps. The
  window is closed on the right: a timestamp exactly 72 hours after the start is counted.
\<close>

theorem computeVelocity72h_closed_window:
  "computeVelocity72h stamps = slidingWindowVelocity windowCountClosed stamps"
  by (rule velocity_closed)

theorem computeVelocity72h_closed_window_witness:
  "computeVelocity72h [0, 3600000, 259200000, 259200001] = 3 / 4"
  using computeVelocity72h_closed_window [of "[0, 3600000, 259200000, 259200001]"]
  by (simp add: slidingWindowVelocity_def windowCountClosed_def window72h_def)

text \<open>
  Claim C4 as stated, with a right-open window, fails: for two transactions exactly 72 hours
  apart the code counts both in one window and returns 1, the right-open reading gives 1/2.
\<close>

theorem computeVelocity72h_right_open_counterexample:
  "computeVelocity72h [0, 259200000] = 1 \<and>
   slidingWindowVelocity windowCountRightOpen [0, 259200000] = 1 / 2"
  by (simp add: velocity_closed slidingWindowVelocity_def windowCountClosed_def
      windowCountRightOpen_def window72h_def)


section \<open>Account suspicion score\<close>

lemma set_setOrder: "set (setOrder xs) = set xs"
  by (induction xs rule: setOrder.induct) auto










lemma includesStr_prefix: "prefix sub s \<Longrightarrow> includesStr s sub"
proof (cases s)
  case Nil
  assume "prefix sub s"
  with Nil show ?thesis by simp
next
  case (Cons c cs)
  assume "prefix sub s"
  with Cons show ?thesis by (simp only: includesStr.simps simp_thms)
qed













section \<open>Guarded divisions in scoring and metadata\<close>

lemma nodeMeta_guards:
  "(txCount (nodeMeta outs ins) \<le> 1 \<longrightarrow> computeVelocity72h (allTimestamps (nodeMeta outs ins)) = 1)
   \<and> (max (totalReceived (nodeMeta outs ins)) (totalSent (nodeMeta outs ins)) = 0
        \<longrightarrow> passThroughRate (nodeMeta outs ins) = 0)
   \<and> (totalReceived (nodeMeta outs ins) = 0 \<longrightarrow> throughputRatio (nodeMeta outs ins) = Some 0)"
  by (simp add: nodeMeta_def Let_def computeVelocity72h_def passThroughRate_def)

lemma build_meta:
  "(a, m) \<in> set (nodeMetadata (build txs)) \<Longrightarrow> \<exists>outs ins. m = nodeMeta outs ins"
  by (auto simp: build_def Let_def)

text \<open>
  Claim C9, as the code has it: for every account of the built graph, the velocity is 1 when
  tx_count is at most 1, the pass-through rate is 0 when the larger of total-in and total-out
  is 0, and the throughput ratio is the number 0 when total_received is 0.
\<close>

theorem metadata_guards:
  assumes "(a, m) \<in> set (nodeMetadata (build txs))"
  shows "(txCount m \<le> 1 \<longrightarrow> computeVelocity72h (allTimestamps m) = 1)
       \<and> (max (totalReceived m) (totalSent m) = 0 \<longrightarrow> passThroughRate m = 0)
       \<and> (totalReceived m = 0 \<longrightarrow> throughputRatio m = Some 0)"
proof -
  from assms obtain outs ins where "m = nodeMeta outs ins" using build_meta by blast
  then show ?thesis using nodeMeta_guards [of outs ins] by simp
qed

lemma example_build:
  "(''A'', nodeMeta [exampleEdge amt] []) \<in> set (nodeMetadata (build [exampleTx amt]))"
  by (simp add: build_def exampleTx_def exampleEdge_def addTransaction_def Let_def edgesOf_def)

lemma example_node_meta:
  "txCount (nodeMeta [exampleEdge amt] []) = 1"
  "totalReceived (nodeMeta [exampleEdge amt] []) = 0"
  "totalSent (nodeMeta [exampleEdge amt] []) = amt"
  by (simp_all add: nodeMeta_def exampleEdge_def Let_def)

theorem metadata_guards_witness:
  "(''A'', nodeMeta [exampleEdge 0] []) \<in> set (nodeMetadata (build [exampleTx 0]))
   \<and> txCount (nodeMeta [exampleEdge 0] []) \<le> 1
   \<and> max (totalReceived (nodeMeta [exampleEdge 0] [])) (totalSent (nodeMeta [exampleEdge 0] [])) = 0
   \<and> totalReceived (nodeMeta [exampleEdge 0] []) = 0
   \<and> computeVelocity72h (allTimestamps (nodeMeta [exampleEdge 0] [])) = 1
   \<and> passThroughRate (nodeMeta [exampleEdge 0] []) = 0
   \<and> throughputRatio (nodeMeta [exampleEdge 0] []) = Some 0"
  using metadata_guards [OF example_build [of 0]] example_build [of 0]
  by (simp add: example_node_meta)

text \<open>
  Claim C9 as stated fails in its last part: the sender of a single transaction has received
  nothing, and its throughput ratio is set, to the number 0.
\<close>

theorem throughput_unset_counterexample:
  "(''A'', nodeMeta [exampleEdge 100] []) \<in> set (nodeMetadata (build [exampleTx 100]))
   \<and> totalReceived (nodeMeta [exampleEdge 100] []) = 0
   \<and> throughputRatio (nodeMeta [exampleEdge 100] []) \<noteq> None"
  using example_build [of 100] by (simp add: example_node_meta) (simp add: nodeMeta_def Let_def)

section \<open>Temporal regularity: payroll filter and smurfing penalty\<close>








section \<open>Smurfing detector: emission threshold\<close>

lemma keys_pushEdge: "map fst (pushEdge k e m) = (if k \<in> fst ` set m then map fst m else map fst m @ [k])"
  by (induction m) (fastforce simp: image_iff)+

lemma keys_ensureKey: "map fst (ensureKey k m) = (if k \<in> fst ` set m then map fst m else map fst m @ [k])"
  by (induction m) (fastforce simp: image_iff)+

lemma distinct_pushEdge: "distinct (map fst m) \<Longrightarrow> distinct (map fst (pushEdge k e m))"
  by (simp add: keys_pushEdge)

lemma distinct_ensureKey: "distinct (map fst m) \<Longrightarrow> distinct (map fst (ensureKey k m))"
  by (simp add: keys_ensureKey)

lemma distinct_addTransaction:
  "distinct (map fst (fst g)) \<and> distinct (map fst (snd g)) \<Longrightarrow>
   distinct (map fst (fst (addTransaction g tx))) \<and> distinct (map fst (snd (addTransaction g tx)))"
  by (simp add: addTransaction_def Let_def distinct_pushEdge distinct_ensureKey)

lemma distinct_foldl_addTransaction:
  "distinct (map fst (fst g)) \<and> distinct (map fst (snd g)) \<Longrightarrow>
   distinct (map fst (fst (foldl addTransaction g txs)))
   \<and> distinct (map fst (snd (foldl addTransaction g txs)))"
proof (induction txs arbitrary: g)
  case Nil
  then show ?case by simp
next
  case (Cons tx txs)
  from Cons.prems have "distinct (map fst (fst (addTransaction g tx)))
      \<and> distinct (map fst (snd (addTransaction g tx)))"
    by (rule distinct_addTransaction)
  then show ?case using Cons.IH by simp
qed

lemma build_distinct:
  "distinct (map fst (adjacencyList (build txs)))"
  "distinct (map fst (reverseAdjList (build txs)))"
  "distinct (map fst (nodeMetadata (build txs)))"
proof -
  have d: "distinct (map fst (fst (foldl addTransaction ([], []) txs)))
      \<and> distinct (map fst (snd (foldl addTransaction ([], []) txs)))"
    by (rule distinct_foldl_addTransaction) simp
  show "distinct (map fst (adjacencyList (build txs)))"
    "distinct (map fst (reverseAdjList (build txs)))"
    using d by (simp_all add: build_def Let_def)
  have "map fst (nodeMetadata (build txs)) = map fst (fst (foldl addTransaction ([], []) txs))"
    by (simp add: build_def Let_def case_prod_beta o_def)
  with d show "distinct (map fst (nodeMetadata (build txs)))" by simp
qed

lemma distinct_setOrder: "distinct (setOrder xs)"
  by (induction xs rule: setOrder.induct) (auto simp: set_setOrder)

lemma length_setOrder: "length (setOrder xs) = card (set xs)"
  using distinct_card [OF distinct_setOrder, of xs] by (simp add: set_setOrder)

lemma jsRound_of_int: "jsRound (of_int s) = s"
  unfolding jsRound_def by linarith

lemma computeSmurfScore_clamped:
  "txs \<noteq> [] \<Longrightarrow>
   computeSmurfScore hourOf adj radj metas node txs pt = clampedSignalSum hourOf adj radj metas node txs pt"
  by (simp add: computeSmurfScore_def clampedSignalSum_def Let_def jsRound_of_int length_setOrder)

lemma fanInStep_emits:
  "(\<exists>g\<in>set (fanInStep hourOf adj radj metas (node, inEdges)). P g) \<longleftrightarrow>
   (card (set (map peer inEdges)) \<ge> 10
    \<and> computeSmurfScore hourOf adj radj metas node inEdges fan_in \<ge> 40
    \<and> P \<lparr>smurfType = fan_in, aggregatorNode = Some node, disperserNode = None,
          members = node # setOrder (map peer inEdges),
          score = computeSmurfScore hourOf adj radj metas node inEdges fan_in,
          temporalWindowHours = timeWindowHours inEdges\<rparr>)"
  by (simp add: fanInStep_def Let_def FAN_THRESHOLD_def length_setOrder del: set_map)

lemma fanOutStep_emits:
  "(\<exists>g\<in>set (fanOutStep hourOf adj radj metas (node, outEdges)). P g) \<longleftrightarrow>
   (card (set (map peer outEdges)) \<ge> 10
    \<and> computeSmurfScore hourOf adj radj metas node outEdges fan_out \<ge> 40
    \<and> P \<lparr>smurfType = fan_out, aggregatorNode = None, disperserNode = Some node,
          members = node # setOrder (map peer outEdges),
          score = computeSmurfScore hourOf adj radj metas node outEdges fan_out,
          temporalWindowHours = timeWindowHours outEdges\<rparr>)"
  by (simp add: fanOutStep_def Let_def FAN_THRESHOLD_def length_setOrder del: set_map)

lemma entry_unique:
  "distinct (map fst xs) \<Longrightarrow> (k, v) \<in> set xs \<Longrightarrow> (k, v') \<in> set xs \<Longrightarrow> v = v'"
  by (meson eq_key_imp_eq_value)

lemma detectFanIn_emits:
  assumes "distinct (map fst radj)" "(node, inEdges) \<in> set radj"
  shows "(\<exists>g\<in>set (detectFanIn hourOf adj radj metas). aggregatorNode g = Some node) \<longleftrightarrow>
         (card (set (map peer inEdges)) \<ge> 10
          \<and> computeSmurfScore hourOf adj radj metas node inEdges fan_in \<ge> 40)"
proof -
  have "(\<exists>g\<in>set (detectFanIn hourOf adj radj metas). aggregatorNode g = Some node)
        \<longleftrightarrow> (\<exists>e\<in>set radj. \<exists>g\<in>set (fanInStep hourOf adj radj metas e). aggregatorNode g = Some node)"
    by (auto simp: detectFanIn_def)
  also have "\<dots> \<longleftrightarrow> (\<exists>g\<in>set (fanInStep hourOf adj radj metas (node, inEdges)). aggregatorNode g = Some node)"
  proof
    assume "\<exists>e\<in>set radj. \<exists>g\<in>set (fanInStep hourOf adj radj metas e). aggregatorNode g = Some node"
    then obtain k es where e: "(k, es) \<in> set radj"
      and g: "\<exists>g\<in>set (fanInStep hourOf adj radj metas (k, es)). aggregatorNode g = Some node"
      by auto
    from g have "k = node" by (simp add: fanInStep_emits)
    with e assms have "es = inEdges" using entry_unique by fastforce
    with g \<open>k = node\<close> show "\<exists>g\<in>set (fanInStep hourOf adj radj metas (node, inEdges)). aggregatorNode g = Some node"
      by simp
  next
    assume "\<exists>g\<in>set (fanInStep hourOf adj radj metas (node, inEdges)). aggregatorNode g = Some node"
    with assms(2) show "\<exists>e\<in>set radj. \<exists>g\<in>set (fanInStep hourOf adj radj metas e). aggregatorNode g = Some node"
      by blast
  qed
  also have "\<dots> \<longleftrightarrow> (card (set (map peer inEdges)) \<ge> 10
          \<and> computeSmurfScore hourOf adj radj metas node inEdges fan_in \<ge> 40)"
    by (simp add: fanInStep_emits)
  finally show ?thesis .
qed

lemma detectFanOut_emits:
  assumes "distinct (map fst adj)" "(node, outEdges) \<in> set adj"
  shows "(\<exists>g\<in>set (detectFanOut hourOf adj radj metas). disperserNode g = Some node) \<longleftrightarrow>
         (card (set (map peer outEdges)) \<ge> 10
          \<and> computeSmurfScore hourOf adj radj metas node outEdges fan_out \<ge> 40)"
proof -
  have "(\<exists>g\<in>set (detectFanOut hourOf adj radj metas). disperserNode g = Some node)
        \<longleftrightarrow> (\<exists>e\<in>set adj. \<exists>g\<in>set (fanOutStep hourOf adj radj metas e). disperserNode g = Some node)"
    by (auto simp: detectFanOut_def)
  also have "\<dots> \<longleftrightarrow> (\<exists>g\<in>set (fanOutStep hourOf adj radj metas (node, outEdges)). disperserNode g = Some node)"
  proof
    assume "\<exists>e\<in>set adj. \<exists>g\<in>set (fanOutStep hourOf adj radj metas e). disperserNode g = Some node"
    then obtain k es where e: "(k, es) \<in> set adj"
      and g: "\<exists>g\<in>set (fanOutStep hourOf adj radj metas (k, es)). disperserNode g = Some node"
      by auto
    from g have "k = node" by (simp add: fanOutStep_emits)
    with e assms have "es = outEdges" using entry_unique by fastforce
    with g \<open>k = node\<close> show "\<exists>g\<in>set (fanOutStep hourOf adj radj metas (node, outEdges)). disperserNode g = Some node"
      by simp
  next
    assume "\<exists>g\<in>set (fanOutStep hourOf adj radj metas (node, outEdges)). disperserNode g = Some node"
    with assms(2) show "\<exists>e\<in>set adj. \<exists>g\<in>set (fanOutStep hourOf adj radj metas e). disperserNode g = Some node"
      by blast
  qed
  also have "\<dots> \<longleftrightarrow> (card (set (map peer outEdges)) \<ge> 10
          \<and> computeSmurfScore hourOf adj radj metas node outEdges fan_out \<ge> 40)"
    by (simp add: fanOutStep_emits)
  finally show ?thesis .
qed

lemma fanIn_types: "g \<in> set (detectFanIn hourOf adj radj metas) \<Longrightarrow> smurfType g = fan_in"
  by (auto simp: detectFanIn_def fanInStep_def Let_def split: if_splits)

lemma fanOut_types: "g \<in> set (detectFanOut hourOf adj radj metas) \<Longrightarrow> smurfType g = fan_out"
  by (auto simp: detectFanOut_def fanOutStep_def Let_def split: if_splits)

lemma combinedStep_append:
  "combinedStep hourOf adj radj metas groups entry
   = groups @ combinedEmit hourOf adj radj metas groups entry"
  by (simp add: combinedEmit_def combinedStep_def Let_def)

lemma combinedEmit_cases:
  "combinedEmit hourOf adj radj metas groups (node, meta) =
     (if uniqueSenders meta \<ge> 10 \<and> uniqueReceivers meta \<ge> 10 \<and> \<not> flagged groups node
         \<and> computeSmurfScore hourOf adj radj metas node (edgesOf radj node @ edgesOf adj node) fan_in_fan_out \<ge> 40
      then [\<lparr>smurfType = fan_in_fan_out, aggregatorNode = Some node, disperserNode = Some node,
             members = node # setOrder (map peer (edgesOf radj node)) @ setOrder (map peer (edgesOf adj node)),
             score = computeSmurfScore hourOf adj radj metas node (edgesOf radj node @ edgesOf adj node) fan_in_fan_out,
             temporalWindowHours = timeWindowHours (edgesOf radj node @ edgesOf adj node)\<rparr>]
      else [])"
  by (simp add: combinedEmit_def combinedStep_def Let_def FAN_THRESHOLD_def flagged_def list_ex_iff)


lemma flagged_append: "flagged (G @ H) n \<longleftrightarrow> flagged G n \<or> flagged H n"
  by (auto simp: flagged_def)

lemma flagged_emit:
  "flagged (combinedEmit hourOf adj radj metas G e) n \<Longrightarrow> n = fst e"
  by (cases e) (simp add: combinedEmit_cases flagged_def split: if_splits)

lemma combinedEmit_cong:
  "flagged G' (fst e) = flagged G (fst e) \<Longrightarrow>
   combinedEmit hourOf adj radj metas G' e = combinedEmit hourOf adj radj metas G e"
  by (cases e) (simp add: combinedEmit_cases)

lemma foldl_combinedStep:
  "distinct (map fst ms) \<Longrightarrow>
   foldl (combinedStep hourOf adj radj metas) G ms
   = G @ concat (map (combinedEmit hourOf adj radj metas G) ms)"
proof (induction ms arbitrary: G)
  case Nil
  then show ?case by simp
next
  case (Cons e ms)
  let ?G' = "G @ combinedEmit hourOf adj radj metas G e"
  have d: "distinct (map fst ms)" and ne: "\<forall>x\<in>set ms. fst x \<noteq> fst e"
    using Cons.prems by (auto simp: image_iff)
  have same: "\<forall>x\<in>set ms. combinedEmit hourOf adj radj metas ?G' x
                             = combinedEmit hourOf adj radj metas G x"
  proof
    fix x assume x: "x \<in> set ms"
    have "flagged ?G' (fst x) = flagged G (fst x)"
      using ne x flagged_emit [of hourOf adj radj metas G e "fst x"]
      by (auto simp: flagged_append)
    then show "combinedEmit hourOf adj radj metas ?G' x = combinedEmit hourOf adj radj metas G x"
      by (rule combinedEmit_cong)
  qed
  have "foldl (combinedStep hourOf adj radj metas) G (e # ms)
        = foldl (combinedStep hourOf adj radj metas) ?G' ms"
    by (simp add: combinedStep_append [symmetric])
  also have "\<dots> = ?G' @ concat (map (combinedEmit hourOf adj radj metas ?G') ms)"
    using d by (rule Cons.IH)
  also have "map (combinedEmit hourOf adj radj metas ?G') ms
             = map (combinedEmit hourOf adj radj metas G) ms"
    using same by simp
  finally show ?case by simp
qed

lemma combined_emits:
  assumes "distinct (map fst metas)" "(node, meta) \<in> set metas"
  shows "(\<exists>g\<in>set (concat (map (combinedEmit hourOf adj radj metas G) metas)).
            aggregatorNode g = Some node)
         \<longleftrightarrow> (uniqueSenders meta \<ge> 10 \<and> uniqueReceivers meta \<ge> 10 \<and> \<not> flagged G node
              \<and> computeSmurfScore hourOf adj radj metas node
                   (edgesOf radj node @ edgesOf adj node) fan_in_fan_out \<ge> 40)"
proof
  assume "\<exists>g\<in>set (concat (map (combinedEmit hourOf adj radj metas G) metas)). aggregatorNode g = Some node"
  then obtain k m g where e: "(k, m) \<in> set metas"
    and g: "g \<in> set (combinedEmit hourOf adj radj metas G (k, m))" "aggregatorNode g = Some node"
    by auto
  from g have "k = node" by (auto simp: combinedEmit_cases split: if_splits)
  with e assms have "m = meta" using entry_unique by fastforce
  with g \<open>k = node\<close> show "uniqueSenders meta \<ge> 10 \<and> uniqueReceivers meta \<ge> 10 \<and> \<not> flagged G node
              \<and> computeSmurfScore hourOf adj radj metas node
                   (edgesOf radj node @ edgesOf adj node) fan_in_fan_out \<ge> 40"
    by (simp add: combinedEmit_cases split: if_splits)
next
  assume a: "uniqueSenders meta \<ge> 10 \<and> uniqueReceivers meta \<ge> 10 \<and> \<not> flagged G node
              \<and> computeSmurfScore hourOf adj radj metas node
                   (edgesOf radj node @ edgesOf adj node) fan_in_fan_out \<ge> 40"
  then have "\<exists>g\<in>set (combinedEmit hourOf adj radj metas G (node, meta)). aggregatorNode g = Some node"
    by (simp add: combinedEmit_cases)
  with assms(2) show "\<exists>g\<in>set (concat (map (combinedEmit hourOf adj radj metas G) metas)). aggregatorNode g = Some node"
    by auto
qed

lemma combined_types:
  "g \<in> set (concat (map (combinedEmit hourOf adj radj metas G) metas)) \<Longrightarrow> smurfType g = fan_in_fan_out"
  by (auto simp: combinedEmit_cases split: if_splits)

lemma scoreThroughput_le: "scoreThroughput metas node \<le> 10"
  by (simp add: scoreThroughput_def split: option.splits)

lemma legitimacyPenalty_empty: "0 \<le> legitimacyPenalty hourOf adj radj metas node [] [] pt"
  by (simp add: legitimacyPenalty_def Let_def regularIntervalPenalty_def split: option.splits)

lemma clampedSignalSum_empty: "clampedSignalSum hourOf adj radj metas node [] pt < 40"
proof -
  have "scoreStructural (card (set (map peer ([]::edge list)))) = 10" by (simp add: scoreStructural_def)
  moreover have "scoreTemporalBurst [] = 0" "scoreOffHours hourOf [] = 0" "scoreVelocity [] [] = 0"
    "scoreBehavioralAmounts [] = 0"
    by (simp_all add: scoreTemporalBurst_def scoreOffHours_def scoreVelocity_def scoreBehavioralAmounts_def)
  moreover note scoreThroughput_le [of metas node] legitimacyPenalty_empty [of hourOf adj radj metas node pt]
  ultimately show ?thesis
    unfolding clampedSignalSum_def Let_def by simp
qed

lemma computeSmurfScore_ge40:
  "(computeSmurfScore hourOf adj radj metas node txs pt \<ge> 40)
   = (clampedSignalSum hourOf adj radj metas node txs pt \<ge> 40)"
proof (cases "txs = []")
  case True
  then show ?thesis using clampedSignalSum_empty [of hourOf adj radj metas node pt]
    by (simp add: computeSmurfScore_def)
next
  case False
  then show ?thesis by (simp add: computeSmurfScore_clamped)
qed

lemma smurfDetect_split:
  "distinct (map fst metas) \<Longrightarrow>
   smurfDetect hourOf adj radj metas
   = detectFanIn hourOf adj radj metas @ detectFanOut hourOf adj radj metas
     @ concat (map (combinedEmit hourOf adj radj metas
                     (detectFanIn hourOf adj radj metas @ detectFanOut hourOf adj radj metas)) metas)"
  by (simp add: smurfDetect_def foldl_combinedStep)

lemma smurf_emit_distinct:
  assumes "distinct (map fst adj)" "distinct (map fst radj)" "distinct (map fst metas)"
  shows
   "(\<forall>inEdges. (node, inEdges) \<in> set radj \<and> card (set (map peer inEdges)) \<ge> 10 \<longrightarrow>
       ((\<exists>g\<in>set (smurfDetect hourOf adj radj metas). smurfType g = fan_in \<and> aggregatorNode g = Some node)
        \<longleftrightarrow> clampedSignalSum hourOf adj radj metas node inEdges fan_in \<ge> 40))
    \<and> (\<forall>outEdges. (node, outEdges) \<in> set adj \<and> card (set (map peer outEdges)) \<ge> 10 \<longrightarrow>
       ((\<exists>g\<in>set (smurfDetect hourOf adj radj metas). smurfType g = fan_out \<and> disperserNode g = Some node)
        \<longleftrightarrow> clampedSignalSum hourOf adj radj metas node outEdges fan_out \<ge> 40))
    \<and> (\<forall>meta. (node, meta) \<in> set metas \<and> uniqueSenders meta \<ge> 10 \<and> uniqueReceivers meta \<ge> 10
          \<and> \<not> flagged (detectFanIn hourOf adj radj metas @ detectFanOut hourOf adj radj metas) node \<longrightarrow>
       ((\<exists>g\<in>set (smurfDetect hourOf adj radj metas). smurfType g = fan_in_fan_out \<and> aggregatorNode g = Some node)
        \<longleftrightarrow> clampedSignalSum hourOf adj radj metas node (edgesOf radj node @ edgesOf adj node) fan_in_fan_out \<ge> 40))"
proof (intro conjI allI impI)
  let ?I = "detectFanIn hourOf adj radj metas" and ?O = "detectFanOut hourOf adj radj metas"
  let ?C = "concat (map (combinedEmit hourOf adj radj metas (?I @ ?O)) metas)"
  have split: "set (smurfDetect hourOf adj radj metas) = set ?I \<union> set ?O \<union> set ?C"
    using assms(3) by (simp add: smurfDetect_split Un_assoc)
  have tI: "\<And>g. g \<in> set ?I \<Longrightarrow> smurfType g = fan_in" by (rule fanIn_types)
  have tO: "\<And>g. g \<in> set ?O \<Longrightarrow> smurfType g = fan_out" by (rule fanOut_types)
  have tC: "\<And>g. g \<in> set ?C \<Longrightarrow> smurfType g = fan_in_fan_out" by (rule combined_types)
  {
    fix inEdges
    assume a: "(node, inEdges) \<in> set radj \<and> card (set (map peer inEdges)) \<ge> 10"
    have "(\<exists>g\<in>set (smurfDetect hourOf adj radj metas). smurfType g = fan_in \<and> aggregatorNode g = Some node)
          \<longleftrightarrow> (\<exists>g\<in>set ?I. aggregatorNode g = Some node)"
      unfolding split using tI tO tC by (metis Un_iff smurf_type.distinct(1,3))
    also have "\<dots> \<longleftrightarrow> computeSmurfScore hourOf adj radj metas node inEdges fan_in \<ge> 40"
      using a detectFanIn_emits [OF assms(2), of node inEdges hourOf adj metas] by simp
    finally show "(\<exists>g\<in>set (smurfDetect hourOf adj radj metas). smurfType g = fan_in \<and> aggregatorNode g = Some node)
        \<longleftrightarrow> clampedSignalSum hourOf adj radj metas node inEdges fan_in \<ge> 40"
      by (simp only: computeSmurfScore_ge40)
  }
  {
    fix outEdges
    assume a: "(node, outEdges) \<in> set adj \<and> card (set (map peer outEdges)) \<ge> 10"
    have "(\<exists>g\<in>set (smurfDetect hourOf adj radj metas). smurfType g = fan_out \<and> disperserNode g = Some node)
          \<longleftrightarrow> (\<exists>g\<in>set ?O. disperserNode g = Some node)"
      unfolding split using tI tO tC by (metis Un_iff smurf_type.distinct(1,5))
    also have "\<dots> \<longleftrightarrow> computeSmurfScore hourOf adj radj metas node outEdges fan_out \<ge> 40"
      using a detectFanOut_emits [OF assms(1), of node outEdges hourOf radj metas] by simp
    finally show "(\<exists>g\<in>set (smurfDetect hourOf adj radj metas). smurfType g = fan_out \<and> disperserNode g = Some node)
        \<longleftrightarrow> clampedSignalSum hourOf adj radj metas node outEdges fan_out \<ge> 40"
      by (simp only: computeSmurfScore_ge40)
  }
  {
    fix meta
    assume a: "(node, meta) \<in> set metas \<and> uniqueSenders meta \<ge> 10 \<and> uniqueReceivers meta \<ge> 10
          \<and> \<not> flagged (?I @ ?O) node"
    have "(\<exists>g\<in>set (smurfDetect hourOf adj radj metas). smurfType g = fan_in_fan_out \<and> aggregatorNode g = Some node)
          \<longleftrightarrow> (\<exists>g\<in>set ?C. aggregatorNode g = Some node)"
      unfolding split using tI tO tC by (metis Un_iff smurf_type.distinct(3,5))
    also have "\<dots> \<longleftrightarrow> computeSmurfScore hourOf adj radj metas node
                   (edgesOf radj node @ edgesOf adj node) fan_in_fan_out \<ge> 40"
      using a combined_emits [OF assms(3), of node meta hourOf adj radj "?I @ ?O"] by simp
    finally show "(\<exists>g\<in>set (smurfDetect hourOf adj radj metas). smurfType g = fan_in_fan_out \<and> aggregatorNode g = Some node)
        \<longleftrightarrow> clampedSignalSum hourOf adj radj metas node (edgesOf radj node @ edgesOf adj node) fan_in_fan_out \<ge> 40"
      by (simp only: computeSmurfScore_ge40)
  }
qed

text \<open>
  Claim C7: on the graph built from any transactions, for a node with at least 10 unique
  senders the detector emits a fan-in group for it if and only if the score over its in-edges
  is at least 40; likewise a fan-out group for a node with at least 10 unique receivers, over
  its out-edges; and for a node with both that the two earlier scans did not emit, a
  combined group if and only if the score over the in-edges followed by the out-edges is at
  least 40. The score is the sum of the six signals minus the legitimacy penalty, clamped
  to [0, 100].
\<close>

theorem smurf_emit_iff:
  fixes txs :: "transaction list" and hourOf :: "int \<Rightarrow> nat" and node :: account
  defines "adj \<equiv> adjacencyList (build txs)"
    and "radj \<equiv> reverseAdjList (build txs)"
    and "metas \<equiv> nodeMetadata (build txs)"
  shows
   "(\<forall>inEdges. (node, inEdges) \<in> set radj \<and> card (set (map peer inEdges)) \<ge> 10 \<longrightarrow>
       ((\<exists>g\<in>set (smurfDetect hourOf adj radj metas). smurfType g = fan_in \<and> aggregatorNode g = Some node)
        \<longleftrightarrow> clampedSignalSum hourOf adj radj metas node inEdges fan_in \<ge> 40))
    \<and> (\<forall>outEdges. (node, outEdges) \<in> set adj \<and> card (set (map peer outEdges)) \<ge> 10 \<longrightarrow>
       ((\<exists>g\<in>set (smurfDetect hourOf adj radj metas). smurfType g = fan_out \<and> disperserNode g = Some node)
        \<longleftrightarrow> clampedSignalSum hourOf adj radj metas node outEdges fan_out \<ge> 40))
    \<and> (\<forall>meta. (node, meta) \<in> set metas \<and> uniqueSenders meta \<ge> 10 \<and> uniqueReceivers meta \<ge> 10
          \<and> \<not> flagged (detectFanIn hourOf adj radj metas @ detectFanOut hourOf adj radj metas) node \<longrightarrow>
       ((\<exists>g\<in>set (smurfDetect hourOf adj radj metas). smurfType g = fan_in_fan_out \<and> aggregatorNode g = Some node)
        \<longleftrightarrow> clampedSignalSum hourOf adj radj metas node (edgesOf radj node @ edgesOf adj node) fan_in_fan_out \<ge> 40))"
  unfolding adj_def radj_def metas_def
  by (rule smurf_emit_distinct [OF build_distinct])


lemma smurf_radj: "edgesOf (reverseAdjList (build smurfTxs)) ''H'' = smurfInEdges"
  by (simp add: build_def smurfTxs_def smurfSenders_def smurfInEdges_def addTransaction_def Let_def edgesOf_def)

lemma smurf_adj: "edgesOf (adjacencyList (build smurfTxs)) ''H'' = []"
  by (simp add: build_def smurfTxs_def smurfSenders_def smurfInEdges_def addTransaction_def Let_def edgesOf_def)

lemma smurf_peers: "card (set (map peer smurfInEdges)) = 10"
  by (simp add: smurfInEdges_def smurfSenders_def)

lemma smurf_stamps: "sort (map timestamp smurfInEdges) = 
  [43200000, 43800000, 44400000, 45000000, 45600000, 46200000, 46800000, 47400000, 48000000, 48600000]"
  by (simp add: smurfInEdges_def smurfSenders_def)

lemma smurf_amounts: "map amount smurfInEdges = [9500, 9500, 9500, 9500, 9500, 9500, 9500, 9500, 9500, 9500]"
  by (simp add: smurfInEdges_def smurfSenders_def)

lemma smurf_meta:
  "map_of (nodeMetadata (build smurfTxs)) ''H'' = Some (nodeMeta [] smurfInEdges)"
  by (simp add: build_def smurfTxs_def smurfSenders_def smurfInEdges_def addTransaction_def Let_def edgesOf_def)

lemma smurf_in_radj: "(''H'', smurfInEdges) \<in> set (reverseAdjList (build smurfTxs))"
  by (simp add: build_def smurfTxs_def smurfSenders_def smurfInEdges_def addTransaction_def Let_def edgesOf_def)

lemma smurf_signals:
  "scoreStructural 10 = 10"
  "scoreTemporalBurst [43200000, 43800000, 44400000, 45000000, 45600000, 46200000, 46800000, 47400000, 48000000, 48600000] = 25"
  "scoreOffHours utcHour [43200000, 43800000, 44400000, 45000000, 45600000, 46200000, 46800000, 47400000, 48000000, 48600000] = 0"
  "scoreVelocity [9500, 9500, 9500, 9500, 9500, 9500, 9500, 9500, 9500, 9500] [43200000, 43800000, 44400000, 45000000, 45600000, 46200000, 46800000, 47400000, 48000000, 48600000] = 20"
     apply (simp add: scoreStructural_def)
    apply (simp add: scoreTemporalBurst_def windowHoursOf_def msPerHour_def Let_def)
   apply (simp add: scoreOffHours_def utcHour_def)
  apply (simp add: scoreVelocity_def windowHoursOf_def msPerHour_def)
  done

lemma smurf_behavioral: "scoreBehavioralAmounts [9500, 9500, 9500, 9500, 9500, 9500, 9500, 9500, 9500, 9500] = 8"
  by (simp add: scoreBehavioralAmounts_def amountsCv_def hasCents_def Let_def)

lemma smurf_throughput: "scoreThroughput (nodeMetadata (build smurfTxs)) ''H'' = 0"
  by (simp add: scoreThroughput_def smurf_meta nodeMeta_def Let_def)

lemma smurf_regular: "regularIntervalPenalty [43200000, 43800000, 44400000, 45000000, 45600000, 46200000, 46800000, 47400000, 48000000, 48600000] = 0"
  by (simp add: regularIntervalPenalty_def deltasOf_def dayMs_def)

lemma smurf_mode: "Max (set (map (\<lambda>a. length (filter (\<lambda>b. b = a) (map (roundTo 100) [9500, 9500, 9500, 9500, 9500, 9500, 9500, 9500, 9500, 9500]))) (map (roundTo 100) [9500, 9500, 9500, 9500, 9500, 9500, 9500, 9500, 9500, 9500]))) = 10"
  by (simp add: roundTo_def)

lemma smurf_business_hours: "length (filter (\<lambda>t. utcHour t \<ge> 8 \<and> utcHour t \<le> 18) [43200000, 43800000, 44400000, 45000000, 45600000, 46200000, 46800000, 47400000, 48000000, 48600000]) = 10"
  by (simp add: utcHour_def)

lemma smurf_window: "windowHoursOf [43200000, 43800000, 44400000, 45000000, 45600000, 46200000, 46800000, 47400000, 48000000, 48600000] = 3/2"
  by (simp add: windowHoursOf_def msPerHour_def)

lemma smurf_sender_count: "length (setOrder (map peer smurfInEdges)) = 10"
  by (simp only: length_setOrder smurf_peers)

lemma smurf_penalty:
  "legitimacyPenalty utcHour (adjacencyList (build smurfTxs)) (reverseAdjList (build smurfTxs))
     (nodeMetadata (build smurfTxs)) ''H''
     [43200000, 43800000, 44400000, 45000000, 45600000, 46200000, 46800000, 47400000, 48000000, 48600000]
     [9500, 9500, 9500, 9500, 9500, 9500, 9500, 9500, 9500, 9500] fan_in = 20"
  unfolding legitimacyPenalty_def smurf_meta smurf_radj smurf_adj Let_def option.case smurf_window smurf_business_hours smurf_regular smurf_mode smurf_sender_count
  by simp

lemma smurf_sum:
  "clampedSignalSum utcHour (adjacencyList (build smurfTxs)) (reverseAdjList (build smurfTxs))
     (nodeMetadata (build smurfTxs)) ''H'' smurfInEdges fan_in = 43"
  unfolding clampedSignalSum_def Let_def smurf_peers smurf_stamps smurf_amounts smurf_signals
      smurf_behavioral smurf_throughput smurf_penalty
  by simp

theorem smurf_emit_iff_witness:
  "(''H'', smurfInEdges) \<in> set (reverseAdjList (build smurfTxs))
   \<and> card (set (map peer smurfInEdges)) \<ge> 10
   \<and> clampedSignalSum utcHour (adjacencyList (build smurfTxs)) (reverseAdjList (build smurfTxs))
        (nodeMetadata (build smurfTxs)) ''H'' smurfInEdges fan_in = 43
   \<and> (\<exists>g\<in>set (smurfDetect utcHour (adjacencyList (build smurfTxs))
               (reverseAdjList (build smurfTxs)) (nodeMetadata (build smurfTxs))).
          smurfType g = fan_in \<and> aggregatorNode g = Some ''H'')"
proof -
  have a: "(''H'', smurfInEdges) \<in> set (reverseAdjList (build smurfTxs))
           \<and> 10 \<le> card (set (map peer smurfInEdges))"
    using smurf_in_radj by (simp only: smurf_peers) simp
  have "(\<exists>g\<in>set (smurfDetect utcHour (adjacencyList (build smurfTxs))
               (reverseAdjList (build smurfTxs)) (nodeMetadata (build smurfTxs))).
          smurfType g = fan_in \<and> aggregatorNode g = Some ''H'')
        = (40 \<le> clampedSignalSum utcHour (adjacencyList (build smurfTxs))
              (reverseAdjList (build smurfTxs)) (nodeMetadata (build smurfTxs)) ''H''
              smurfInEdges fan_in)"
    using smurf_emit_iff [of "''H''" smurfTxs utcHour] a by blast
  then have "\<exists>g\<in>set (smurfDetect utcHour (adjacencyList (build smurfTxs))
               (reverseAdjList (build smurfTxs)) (nodeMetadata (build smurfTxs))).
          smurfType g = fan_in \<and> aggregatorNode g = Some ''H''"
    by (simp only: smurf_sum)
  with a show ?thesis by (simp only: smurf_sum simp_thms)
qed

section \<open>Shell network detector: invariants of emitted chains\<close>

lemma coherent_snoc:
  assumes "coherentAmounts amounts" "amounts \<noteq> []" "a \<le> last amounts" "last amounts - a \<le> 10000"
  shows "coherentAmounts (amounts @ [a])"
  unfolding coherentAmounts_def
proof (intro allI impI)
  fix i assume i: "i + 1 < length (amounts @ [a])"
  show "(amounts @ [a]) ! (i + 1) \<le> (amounts @ [a]) ! i
        \<and> (amounts @ [a]) ! i - (amounts @ [a]) ! (i + 1) \<le> 10000"
  proof (cases "i + 1 < length amounts")
    case True
    then show ?thesis using assms(1) by (simp add: coherentAmounts_def nth_append)
  next
    case False
    with i have e: "i + 1 = length amounts" by simp
    then have i': "i = length amounts - 1" by simp
    have "(amounts @ [a]) ! i = last amounts"
      using assms(2) e unfolding i' by (simp add: nth_append last_conv_nth)
    moreover have "(amounts @ [a]) ! (i + 1) = a" using e by (simp add: nth_append)
    ultimately show ?thesis using assms(3,4) by simp
  qed
qed

lemma trace_invariant:
  "pathOk metas shellNodes path amounts \<Longrightarrow>
   c \<in> set (traceShellChain adj metas shellNodes startNode currentNode path visited amounts stamps) \<Longrightarrow>
   chainOk metas shellNodes c"
proof (induction adj metas shellNodes startNode currentNode path visited amounts stamps
       rule: traceShellChain.induct)
  case (1 adj metas shellNodes startNode currentNode path visited amounts stamps)
  have ok: "pathOk metas shellNodes path amounts" by (rule "1.prems"(1))
  have lt: "\<not> MAX_CHAIN_LENGTH \<le> length path"
    using "1.prems"(2) by (subst (asm) traceShellChain.simps) (auto split: if_splits)
  from "1.prems"(2) lt obtain e where e: "e \<in> set (edgesOf adj currentNode)"
    and c: "c \<in> set (if peer e \<in> set visited then []
             else if map_of metas (peer e) = None then []
             else if last amounts - amount e > AMOUNT_COHERENCE_MAX_DROP then []
             else if amount e > last amounts then []
             else if peer e \<in> set shellNodes
                  then traceShellChain adj metas shellNodes startNode (peer e)
                         (path @ [peer e]) (peer e # visited) (amounts @ [amount e])
                         (stamps @ [timestamp e])
                  else (let intermediates = butlast (tl (path @ [peer e]))
                        in if length intermediates \<ge> 1 \<and> length (path @ [peer e]) \<ge> MIN_CHAIN_LENGTH
                              \<and> list_all (\<lambda>n. n \<in> set shellNodes) intermediates
                           then [\<lparr>chain = path @ [peer e],
                                  shellAccounts = intermediates,
                                  hopAmounts = amounts @ [amount e],
                                  hopTimestamps = stamps @ [timestamp e],
                                  amountPattern = classifyAmountPattern (amounts @ [amount e]),
                                  chainScore = scoreChain metas (path @ [peer e])
                                                 (amounts @ [amount e]) (stamps @ [timestamp e])\<rparr>]
                           else []))"
    by (subst (asm) traceShellChain.simps) (auto split: if_splits)
  from c have nv: "peer e \<notin> set visited" and meta: "map_of metas (peer e) \<noteq> None"
    and drop: "\<not> last amounts - amount e > AMOUNT_COHERENCE_MAX_DROP"
    and le: "\<not> amount e > last amounts"
    by (auto split: if_splits)
  from ok have ne: "amounts \<noteq> []" "path \<noteq> []" by (auto simp: pathOk_def)
  have coh: "coherentAmounts (amounts @ [amount e])"
    using ok ne drop le
    by (intro coherent_snoc) (auto simp: pathOk_def AMOUNT_COHERENCE_MAX_DROP_def)
  show ?case
  proof (cases "peer e \<in> set shellNodes")
    case True
    have ok': "pathOk metas shellNodes (path @ [peer e]) (amounts @ [amount e])"
      using ok True coh ne by (auto simp: pathOk_def)
    from c nv meta drop le True
    have "c \<in> set (traceShellChain adj metas shellNodes startNode (peer e)
                         (path @ [peer e]) (peer e # visited) (amounts @ [amount e])
                         (stamps @ [timestamp e]))" by simp
    with "1.IH" [OF lt e nv meta drop le True ok'] show ?thesis by simp
  next
    case False
    from c nv meta drop le False
    have cdef: "c = \<lparr>chain = path @ [peer e],
                     shellAccounts = butlast (tl (path @ [peer e])),
                     hopAmounts = amounts @ [amount e],
                     hopTimestamps = stamps @ [timestamp e],
                     amountPattern = classifyAmountPattern (amounts @ [amount e]),
                     chainScore = scoreChain metas (path @ [peer e])
                                    (amounts @ [amount e]) (stamps @ [timestamp e])\<rparr>"
      and len: "length (path @ [peer e]) \<ge> MIN_CHAIN_LENGTH"
      by (auto simp: Let_def split: if_splits)
    have "butlast (tl (path @ [peer e])) = tl path" using ne by (cases path) simp_all
    then show ?thesis
      using ok False meta coh len lt ne
      by (auto simp: chainOk_def cdef pathOk_def MIN_CHAIN_LENGTH_def MAX_CHAIN_LENGTH_def)
  qed
qed


lemma dedupChains_subset: "set (dedupChains seen cs) \<subseteq> set cs"
  by (induction cs arbitrary: seen) auto

lemma detect_invariant:
  assumes "c \<in> set (shellDetect adj radj metas)"
  shows "chainOk metas (shellNodesOf metas) c"
proof -
  let ?S = "shellNodesOf metas"
  from assms have "c \<in> set (deduplicateChains (concat (map (\<lambda>shellNode.
                   concat (map (\<lambda>e.
                     if map_of metas (peer e) = None then []
                     else if peer e \<in> set ?S then []
                     else traceShellChain adj metas ?S (peer e) shellNode
                            [peer e, shellNode] [peer e, shellNode] [amount e] [timestamp e])
                     (edgesOf radj shellNode)))
                   ?S)))"
    by (simp add: shellDetect_def Let_def split: if_splits)
  then have "c \<in> set (concat (map (\<lambda>shellNode.
                   concat (map (\<lambda>e.
                     if map_of metas (peer e) = None then []
                     else if peer e \<in> set ?S then []
                     else traceShellChain adj metas ?S (peer e) shellNode
                            [peer e, shellNode] [peer e, shellNode] [amount e] [timestamp e])
                     (edgesOf radj shellNode)))
                   ?S))"
    unfolding deduplicateChains_def using dedupChains_subset by blast
  then obtain s e where s: "s \<in> set ?S" and e: "e \<in> set (edgesOf radj s)"
    and c: "c \<in> set (if map_of metas (peer e) = None then []
                     else if peer e \<in> set ?S then []
                     else traceShellChain adj metas ?S (peer e) s
                            [peer e, s] [peer e, s] [amount e] [timestamp e])"
    by auto
  from c have m: "map_of metas (peer e) \<noteq> None" and ns: "peer e \<notin> set ?S"
    and c': "c \<in> set (traceShellChain adj metas ?S (peer e) s
                            [peer e, s] [peer e, s] [amount e] [timestamp e])"
    by (auto split: if_splits)
  have "pathOk metas ?S [peer e, s] [amount e]"
    using m ns s by (simp add: pathOk_def coherentAmounts_def)
  then show ?thesis using c' by (rule trace_invariant)
qed

lemma shellNodes_iff:
  assumes "distinct (map fst metas)"
  shows "n \<in> set (shellNodesOf metas) \<longleftrightarrow> (\<exists>m. map_of metas n = Some m \<and> isShell m)"
proof
  assume "n \<in> set (shellNodesOf metas)"
  then obtain m where "(n, m) \<in> set metas" "isShell m" by (auto simp: shellNodesOf_def)
  with assms show "\<exists>m. map_of metas n = Some m \<and> isShell m" by auto
next
  assume "\<exists>m. map_of metas n = Some m \<and> isShell m"
  then obtain m where "map_of metas n = Some m" "isShell m" by blast
  then have "(n, m) \<in> set metas" "isShell m" by (auto dest: map_of_SomeD)
  then show "n \<in> set (shellNodesOf metas)" by (force simp: shellNodesOf_def)
qed

lemma chainOk_unfold:
  assumes d: "distinct (map fst metas)" and ok: "chainOk metas (shellNodesOf metas) c"
  shows "4 \<le> length (chain c) \<and> length (chain c) \<le> 7
    \<and> (\<forall>i. 0 < i \<and> i + 1 < length (chain c) \<longrightarrow>
          (\<exists>m. map_of metas (chain c ! i) = Some m
               \<and> txCount m \<le> 3 \<and> inDegree m \<ge> 1 \<and> outDegree m \<ge> 1))
    \<and> (\<exists>m. map_of metas (hd (chain c)) = Some m
            \<and> \<not> (txCount m \<le> 3 \<and> inDegree m \<ge> 1 \<and> outDegree m \<ge> 1))
    \<and> (\<exists>m. map_of metas (last (chain c)) = Some m
            \<and> \<not> (txCount m \<le> 3 \<and> inDegree m \<ge> 1 \<and> outDegree m \<ge> 1))
    \<and> length (hopAmounts c) + 1 = length (chain c)
    \<and> (\<forall>i. i + 1 < length (hopAmounts c) \<longrightarrow>
          hopAmounts c ! (i + 1) \<le> hopAmounts c ! i
          \<and> hopAmounts c ! i - hopAmounts c ! (i + 1) \<le> 10000)"
proof -
  note iff = shellNodes_iff [OF d]
  have len: "4 \<le> length (chain c)" "length (chain c) \<le> 7" using ok by (simp_all add: chainOk_def)
  have inner: "\<forall>i. 0 < i \<and> i + 1 < length (chain c) \<longrightarrow>
          (\<exists>m. map_of metas (chain c ! i) = Some m
               \<and> txCount m \<le> 3 \<and> inDegree m \<ge> 1 \<and> outDegree m \<ge> 1)"
  proof (intro allI impI)
    fix i assume "0 < i \<and> i + 1 < length (chain c)"
    then have i: "0 < i" "i + 1 < length (chain c)" by simp_all
    have b: "i - 1 < length (butlast (tl (chain c)))" using i by (simp; arith)
    then have "butlast (tl (chain c)) ! (i - 1) = tl (chain c) ! (i - 1)"
      by (rule nth_butlast)
    also have "\<dots> = chain c ! Suc (i - 1)" using i by (intro nth_tl) simp
    also have "\<dots> = chain c ! i" using i by simp
    finally have "chain c ! i = butlast (tl (chain c)) ! (i - 1)" by simp
    with b have "chain c ! i \<in> set (butlast (tl (chain c)))" using nth_mem by fastforce
    then have "chain c ! i \<in> set (shellNodesOf metas)" using ok by (simp add: chainOk_def)
    then show "\<exists>m. map_of metas (chain c ! i) = Some m
               \<and> txCount m \<le> 3 \<and> inDegree m \<ge> 1 \<and> outDegree m \<ge> 1"
      by (simp add: iff isShell_def SHELL_TX_THRESHOLD_def)
  qed
  have first: "\<exists>m. map_of metas (hd (chain c)) = Some m
            \<and> \<not> (txCount m \<le> 3 \<and> inDegree m \<ge> 1 \<and> outDegree m \<ge> 1)"
  proof -
    from ok obtain m where m: "map_of metas (hd (chain c)) = Some m" by (auto simp: chainOk_def)
    from ok have "hd (chain c) \<notin> set (shellNodesOf metas)" by (simp add: chainOk_def)
    with m have "\<not> isShell m" by (simp add: iff)
    with m show ?thesis by (simp add: isShell_def SHELL_TX_THRESHOLD_def)
  qed
  have final: "\<exists>m. map_of metas (last (chain c)) = Some m
            \<and> \<not> (txCount m \<le> 3 \<and> inDegree m \<ge> 1 \<and> outDegree m \<ge> 1)"
  proof -
    from ok obtain m where m: "map_of metas (last (chain c)) = Some m" by (auto simp: chainOk_def)
    from ok have "last (chain c) \<notin> set (shellNodesOf metas)" by (simp add: chainOk_def)
    with m have "\<not> isShell m" by (simp add: iff)
    with m show ?thesis by (simp add: isShell_def SHELL_TX_THRESHOLD_def)
  qed
  have am: "length (hopAmounts c) + 1 = length (chain c)"
    "\<forall>i. i + 1 < length (hopAmounts c) \<longrightarrow>
          hopAmounts c ! (i + 1) \<le> hopAmounts c ! i
          \<and> hopAmounts c ! i - hopAmounts c ! (i + 1) \<le> 10000"
    using ok by (simp_all add: chainOk_def coherentAmounts_def)
  from len inner first final am show ?thesis by blast
qed

text \<open>
  Claim C6: on the graph built from any transactions, every chain the shell detector emits has
  between 4 and 7 nodes, every interior node has metadata with tx_count \<le> 3, in_degree \<ge> 1
  and out_degree \<ge> 1, neither endpoint's metadata satisfies that predicate, there is one hop
  amount per hop, and the hop amounts never increase and never drop by more than 10,000
  between consecutive hops.
\<close>

theorem shell_chain_invariants:
  fixes txs :: "transaction list"
  defines "metas \<equiv> nodeMetadata (build txs)"
  assumes "c \<in> set (shellDetect (adjacencyList (build txs)) (reverseAdjList (build txs)) metas)"
  shows "4 \<le> length (chain c) \<and> length (chain c) \<le> 7
    \<and> (\<forall>i. 0 < i \<and> i + 1 < length (chain c) \<longrightarrow>
          (\<exists>m. map_of metas (chain c ! i) = Some m
               \<and> txCount m \<le> 3 \<and> inDegree m \<ge> 1 \<and> outDegree m \<ge> 1))
    \<and> (\<exists>m. map_of metas (hd (chain c)) = Some m
            \<and> \<not> (txCount m \<le> 3 \<and> inDegree m \<ge> 1 \<and> outDegree m \<ge> 1))
    \<and> (\<exists>m. map_of metas (last (chain c)) = Some m
            \<and> \<not> (txCount m \<le> 3 \<and> inDegree m \<ge> 1 \<and> outDegree m \<ge> 1))
    \<and> length (hopAmounts c) + 1 = length (chain c)
    \<and> (\<forall>i. i + 1 < length (hopAmounts c) \<longrightarrow>
          hopAmounts c ! (i + 1) \<le> hopAmounts c ! i
          \<and> hopAmounts c ! i - hopAmounts c ! (i + 1) \<le> 10000)"
proof -
  have d: "distinct (map fst metas)" unfolding metas_def by (rule build_distinct)
  from assms(2) have "chainOk metas (shellNodesOf metas) c" by (rule detect_invariant)
  with d show ?thesis by (rule chainOk_unfold)
qed

lemma shell_example:
  "shellDetect (adjacencyList (build shellTxs)) (reverseAdjList (build shellTxs))
     (nodeMetadata (build shellTxs)) = [shellExample]"
  by code_simp

theorem shell_chain_invariants_witness:
  "shellExample \<in> set (shellDetect (adjacencyList (build shellTxs)) (reverseAdjList (build shellTxs))
                          (nodeMetadata (build shellTxs)))
   \<and> length (chain shellExample) = 5
   \<and> (\<exists>m. map_of (nodeMetadata (build shellTxs)) ''SH2'' = Some m \<and> txCount m \<le> 3
           \<and> inDegree m \<ge> 1 \<and> outDegree m \<ge> 1)
   \<and> (\<exists>m. map_of (nodeMetadata (build shellTxs)) ''O1'' = Some m
           \<and> \<not> (txCount m \<le> 3 \<and> inDegree m \<ge> 1 \<and> outDegree m \<ge> 1))"
proof -
  have mem: "shellExample \<in> set (shellDetect (adjacencyList (build shellTxs))
                (reverseAdjList (build shellTxs)) (nodeMetadata (build shellTxs)))"
    by (simp add: shell_example)
  note inv = shell_chain_invariants [OF mem]
  have c: "chain shellExample = [''O1'', ''SH1'', ''SH2'', ''SH3'', ''E1'']"
    by (simp add: shellExample_def)
  from inv have "\<forall>i. 0 < i \<and> i + 1 < length (chain shellExample) \<longrightarrow>
          (\<exists>m. map_of (nodeMetadata (build shellTxs)) (chain shellExample ! i) = Some m
               \<and> txCount m \<le> 3 \<and> inDegree m \<ge> 1 \<and> outDegree m \<ge> 1)"
    by blast
  then have "0 < (2::nat) \<and> 2 + 1 < length (chain shellExample) \<longrightarrow>
          (\<exists>m. map_of (nodeMetadata (build shellTxs)) (chain shellExample ! 2) = Some m
               \<and> txCount m \<le> 3 \<and> inDegree m \<ge> 1 \<and> outDegree m \<ge> 1)"
    by (rule spec)
  then have mid: "\<exists>m. map_of (nodeMetadata (build shellTxs)) ''SH2'' = Some m \<and> txCount m \<le> 3
           \<and> inDegree m \<ge> 1 \<and> outDegree m \<ge> 1"
    by (simp add: c)
  from inv have "\<exists>m. map_of (nodeMetadata (build shellTxs)) (hd (chain shellExample)) = Some m
            \<and> \<not> (txCount m \<le> 3 \<and> inDegree m \<ge> 1 \<and> outDegree m \<ge> 1)"
    by blast
  then have first: "\<exists>m. map_of (nodeMetadata (build shellTxs)) ''O1'' = Some m
           \<and> \<not> (txCount m \<le> 3 \<and> inDegree m \<ge> 1 \<and> outDegree m \<ge> 1)"
    by (simp add: c)
  from mem mid first show ?thesis by (simp add: c)
qed

section \<open>Ring merger\<close>

lemma find_correct:
  assumes "ufInv n R rk parent" "x < n"
  shows "\<exists>parent'. find parent x = Some (parent', R x) \<and> ufInv n R rk parent'
                   \<and> parent' ! (R x) = R x"
  using assms
proof (induction "Max (rk ` {..<n}) - rk x" arbitrary: x parent rule: less_induct)
  case less
  let ?B = "Max (rk ` {..<n})"
  have bound: "rk y \<le> ?B" if "y < n" for y
    using that by (intro Max_ge) auto
  show ?case
  proof (cases "parent ! x = x")
    case True
    with less.prems have "R x = x" by (simp add: ufInv_def)
    then show ?thesis using True less.prems by (subst find.simps) simp
  next
    case False
    let ?p = "parent ! x"
    let ?g = "parent ! ?p"
    let ?parent' = "parent[x := ?g]"
    from less.prems False have p: "?p < n" "R ?p = R x" "rk x < rk ?p"
      and len: "length parent = n"
      by (auto simp: ufInv_def)
    from less.prems(1) p(1) have g: "?g < n" "R ?g = R ?p" "?g = ?p \<or> rk ?p < rk ?g"
      by (auto simp: ufInv_def)
    have rkg: "rk x < rk ?g" using p(3) g(3) by auto
    have gx: "?g \<noteq> x" using rkg by auto
    have l': "length ?parent' = n" using len by simp
    have all': "\<forall>y<n. ?parent' ! y < n \<and> R (?parent' ! y) = R y \<and> R y < n
            \<and> (?parent' ! y = y \<longleftrightarrow> R y = y)
            \<and> (?parent' ! y \<noteq> y \<longrightarrow> rk y < rk (?parent' ! y))"
    proof (intro allI impI)
      fix y assume y: "y < n"
      show "?parent' ! y < n \<and> R (?parent' ! y) = R y \<and> R y < n
            \<and> (?parent' ! y = y \<longleftrightarrow> R y = y)
            \<and> (?parent' ! y \<noteq> y \<longrightarrow> rk y < rk (?parent' ! y))"
      proof (cases "y = x")
        case True
        then have e: "?parent' ! y = ?g" using len less.prems(2) by simp
        have "R x < n" "R x \<noteq> x" using less.prems False by (simp_all add: ufInv_def)
        then show ?thesis unfolding e using True g p rkg gx by simp
      next
        case False
        then have e: "?parent' ! y = parent ! y" by simp
        show ?thesis unfolding e using y less.prems(1) by (simp add: ufInv_def)
      qed
    qed
    from l' all' have inv': "ufInv n R rk ?parent'" by (simp add: ufInv_def)
    have nxt: "?parent' ! x = ?g" using len less.prems(2) by simp
    have "?B - rk ?g < ?B - rk x" using rkg bound [OF g(1)] by linarith
    from less.hyps [OF this inv' g(1)] obtain parent'' where
      r: "find ?parent' ?g = Some (parent'', R ?g)" "ufInv n R rk parent''"
         "parent'' ! (R ?g) = R ?g"
      by blast
    have "R ?g = R x" using g(2) p(2) by simp
    with r False nxt show ?thesis by (subst find.simps) simp
  qed
qed


lemma union_correct:
  assumes inv: "ufInv n R rk parent" and a: "a < n" and b: "b < n"
    and ty: "\<forall>x<n. P (R x) = P x" and pab: "P a = P b"
  shows "\<exists>parent' R' rk'. union parent a b = Some parent' \<and> ufInv n R' rk' parent'
           \<and> R' a = R' b \<and> (\<forall>x y. R x = R y \<longrightarrow> R' x = R' y) \<and> (\<forall>x<n. P (R' x) = P x)"
proof -
  from find_correct [OF inv a] obtain p1 where
    f1: "find parent a = Some (p1, R a)" and i1: "ufInv n R rk p1" and r1: "p1 ! (R a) = R a"
    by blast
  from find_correct [OF i1 b] obtain p2 where
    f2: "find p1 b = Some (p2, R b)" and i2: "ufInv n R rk p2" and r2: "p2 ! (R b) = R b"
    by blast
  let ?ra = "R a" and ?rb = "R b"
  have ran: "?ra < n" and rbn: "?rb < n" using inv a b by (simp_all add: ufInv_def)
  have Rra: "R ?ra = ?ra" using i1 ran r1 by (simp add: ufInv_def)
  have Rrb: "R ?rb = ?rb" using i2 rbn r2 by (simp add: ufInv_def)
  show ?thesis
  proof (cases "?ra = ?rb")
    case True
    then have "union parent a b = Some p2" by (simp add: union_def f1 f2)
    with i2 True ty show ?thesis by blast
  next
    case False
    define parent' where "parent' = p2[?ra := ?rb]"
    define R' where "R' = (\<lambda>x. if R x = ?ra then ?rb else R x)"
    define rk' where "rk' = rk(?rb := max (rk ?rb) (rk ?ra + 1))"
    have u: "union parent a b = Some parent'"
      using False by (simp add: union_def f1 f2 parent'_def)
    have len: "length p2 = n" using i2 by (simp add: ufInv_def)
    have all': "\<forall>y<n. parent' ! y < n \<and> R' (parent' ! y) = R' y \<and> R' y < n
            \<and> (parent' ! y = y \<longleftrightarrow> R' y = y)
            \<and> (parent' ! y \<noteq> y \<longrightarrow> rk' y < rk' (parent' ! y))"
    proof (intro allI impI)
      fix y assume y: "y < n"
      from i2 y have old: "p2 ! y < n" "R (p2 ! y) = R y" "R y < n" "(p2 ! y = y) = (R y = y)"
        "p2 ! y \<noteq> y \<longrightarrow> rk y < rk (p2 ! y)"
        by (simp_all add: ufInv_def)
      show "parent' ! y < n \<and> R' (parent' ! y) = R' y \<and> R' y < n
            \<and> (parent' ! y = y \<longleftrightarrow> R' y = y)
            \<and> (parent' ! y \<noteq> y \<longrightarrow> rk' y < rk' (parent' ! y))"
      proof (cases "y = ?ra")
        case True
        then have e: "parent' ! y = ?rb" using len ran by (simp add: parent'_def)
        show ?thesis unfolding e R'_def rk'_def using True False rbn Rra Rrb by simp
      next
        case ny: False
        then have e: "parent' ! y = p2 ! y" by (simp add: parent'_def)
        have yrb: "p2 ! y \<noteq> y \<Longrightarrow> y \<noteq> ?rb" using r2 by auto
        have "R' y = y \<longleftrightarrow> R y = y" using ny Rrb False by (auto simp: R'_def)
        moreover have "R' (p2 ! y) = R' y" using old(2) by (simp add: R'_def)
        moreover have "R' y < n" using old(3) rbn by (simp add: R'_def)
        moreover have "p2 ! y \<noteq> y \<longrightarrow> rk' y < rk' (p2 ! y)"
        proof
          assume ne: "p2 ! y \<noteq> y"
          then have "rk y < rk (p2 ! y)" using old(5) by simp
          moreover have "rk' y = rk y" using yrb [OF ne] by (simp add: rk'_def)
          moreover have "rk (p2 ! y) \<le> rk' (p2 ! y)" by (simp add: rk'_def)
          ultimately show "rk' y < rk' (p2 ! y)" by linarith
        qed
        ultimately show ?thesis unfolding e using old(1,4) by simp
      qed
    qed
    have inv': "ufInv n R' rk' parent'" using len all' by (simp add: ufInv_def parent'_def)
    have same: "R' a = R' b" by (simp add: R'_def)
    have pres: "\<forall>x y. R x = R y \<longrightarrow> R' x = R' y" by (simp add: R'_def)
    have ty': "\<forall>x<n. P (R' x) = P x"
    proof (intro allI impI)
      fix x assume x: "x < n"
      have "P ?ra = P a" "P ?rb = P b" using ty a b by simp_all
      with pab have e: "P ?ra = P ?rb" by simp
      show "P (R' x) = P x"
      proof (cases "R x = ?ra")
        case True
        then have "P (R' x) = P ?rb" by (simp add: R'_def)
        also have "\<dots> = P (R x)" using e True by simp
        also have "\<dots> = P x" using ty x by simp
        finally show ?thesis .
      next
        case False
        then have "R' x = R x" by (simp add: R'_def)
        then show ?thesis using ty x by simp
      qed
    qed
    from u inv' same pres ty' show ?thesis by blast
  qed
qed


lemma sameComponent_refl: "sameComponent rings x x"
  by (simp add: sameComponent_def)

lemma sameComponent_sym: "sameComponent rings x y \<Longrightarrow> sameComponent rings y x"
proof -
  assume "sameComponent rings x y"
  then have "(x, y) \<in> (overlapEdges rings \<union> (overlapEdges rings)\<inverse>)\<^sup>*"
    by (simp add: sameComponent_def)
  then have "(y, x) \<in> ((overlapEdges rings \<union> (overlapEdges rings)\<inverse>)\<^sup>*)\<inverse>" by simp
  also have "((overlapEdges rings \<union> (overlapEdges rings)\<inverse>)\<^sup>*)\<inverse>
             = ((overlapEdges rings \<union> (overlapEdges rings)\<inverse>)\<inverse>)\<^sup>*"
    by (rule rtrancl_converse [symmetric])
  also have "(overlapEdges rings \<union> (overlapEdges rings)\<inverse>)\<inverse>
             = overlapEdges rings \<union> (overlapEdges rings)\<inverse>" by auto
  finally show "sameComponent rings y x" by (simp add: sameComponent_def)
qed

lemma sameComponent_trans:
  "sameComponent rings x y \<Longrightarrow> sameComponent rings y z \<Longrightarrow> sameComponent rings x z"
  unfolding sameComponent_def by (rule rtrancl_trans)

lemma sameComponent_edge:
  "fst q < snd q \<Longrightarrow> snd q < length rings \<Longrightarrow> significantOverlap (rings ! fst q) (rings ! snd q)
   \<Longrightarrow> sameComponent rings (fst q) (snd q)"
proof -
  assume "fst q < snd q" "snd q < length rings" "significantOverlap (rings ! fst q) (rings ! snd q)"
  then have "q \<in> overlapEdges rings" by (simp add: overlapEdges_def)
  then have "(fst q, snd q) \<in> overlapEdges rings \<union> (overlapEdges rings)\<inverse>" by simp
  then show ?thesis unfolding sameComponent_def by (rule r_into_rtrancl)
qed

lemma sameComponent_classD:
  assumes xy: "sameComponent rings x y"
  shows "{z. sameComponent rings x z} = {z. sameComponent rings y z}"
proof (intro set_eqI iffI)
  fix z assume "z \<in> {z. sameComponent rings x z}"
  then have "sameComponent rings x z" by simp
  with sameComponent_sym [OF xy] have "sameComponent rings y z" by (rule sameComponent_trans)
  then show "z \<in> {z. sameComponent rings y z}" by simp
next
  fix z assume "z \<in> {z. sameComponent rings y z}"
  then have "sameComponent rings y z" by simp
  with xy have "sameComponent rings x z" by (rule sameComponent_trans)
  then show "z \<in> {z. sameComponent rings x z}" by simp
qed

lemma sameComponent_classI:
  assumes e: "{z. sameComponent rings x z} = {z. sameComponent rings y z}"
  shows "sameComponent rings x y"
proof -
  have "y \<in> {z. sameComponent rings y z}" using sameComponent_refl [of rings y] by (rule CollectI)
  with e have "y \<in> {z. sameComponent rings x z}" by (rule ssubst)
  then show "sameComponent rings x y" by (rule CollectD)
qed

lemma unionStep_correct:
  assumes st: "ufState rings D parent" and q: "fst q < length rings" "snd q < length rings"
    and lt: "fst q < snd q"
  shows "\<exists>parent'. unionStep rings q (Some parent) = Some parent'
           \<and> ufState rings (if significantOverlap (rings ! fst q) (rings ! snd q)
                             then insert q D else D) parent'"
proof (cases "significantOverlap (rings ! fst q) (rings ! snd q)")
  case False
  then show ?thesis using st by (simp add: unionStep_def)
next
  case True
  define P where "P = (\<lambda>x. (pattern_type (rings ! x), {z. sameComponent rings x z}))"
  from True have pt: "pattern_type (rings ! fst q) = pattern_type (rings ! snd q)"
    by (simp add: significantOverlap_def)
  have "sameComponent rings (fst q) (snd q)" using lt q(2) True by (rule sameComponent_edge)
  then have "{z. sameComponent rings (fst q) z} = {z. sameComponent rings (snd q) z}"
    by (rule sameComponent_classD)
  with pt have pq: "P (fst q) = P (snd q)" by (simp add: P_def)
  from st obtain R rk where inv: "ufInv (length rings) R rk parent"
    and ty: "\<forall>x<length rings. pattern_type (rings ! R x) = pattern_type (rings ! x)"
    and sc: "\<forall>x<length rings. sameComponent rings x (R x)"
    and d: "\<forall>p\<in>D. R (fst p) = R (snd p)"
    unfolding ufState_def by blast
  have tyP: "\<forall>x<length rings. P (R x) = P x"
  proof (intro allI impI)
    fix x assume x: "x < length rings"
    with sc have "sameComponent rings x (R x)" by blast
    then have "{z. sameComponent rings x z} = {z. sameComponent rings (R x) z}"
      by (rule sameComponent_classD)
    moreover from ty x have "pattern_type (rings ! R x) = pattern_type (rings ! x)" by blast
    ultimately show "P (R x) = P x" by (simp add: P_def)
  qed
  have "\<exists>parent' R' rk'. union parent (fst q) (snd q) = Some parent'
           \<and> ufInv (length rings) R' rk' parent'
           \<and> R' (fst q) = R' (snd q) \<and> (\<forall>x y. R x = R y \<longrightarrow> R' x = R' y)
           \<and> (\<forall>x<length rings. P (R' x) = P x)"
    using inv q tyP pq by (rule union_correct)
  then obtain p1 R1 rk1 where u: "union parent (fst q) (snd q) = Some p1"
    and i1: "ufInv (length rings) R1 rk1 p1" and s1: "R1 (fst q) = R1 (snd q)"
    and pr: "\<forall>x y. R x = R y \<longrightarrow> R1 x = R1 y"
    and tP: "\<forall>x<length rings. P (R1 x) = P x"
    by blast
  have t1: "\<forall>x<length rings. pattern_type (rings ! R1 x) = pattern_type (rings ! x)"
  proof (intro allI impI)
    fix x assume "x < length rings"
    with tP have "P (R1 x) = P x" by blast
    then show "pattern_type (rings ! R1 x) = pattern_type (rings ! x)" by (simp add: P_def)
  qed
  have c1: "\<forall>x<length rings. sameComponent rings x (R1 x)"
  proof (intro allI impI)
    fix x assume "x < length rings"
    with tP have "P (R1 x) = P x" by blast
    then have "{z. sameComponent rings x z} = {z. sameComponent rings (R1 x) z}"
      by (simp add: P_def)
    then show "sameComponent rings x (R1 x)" by (rule sameComponent_classI)
  qed
  have d1: "\<forall>p\<in>insert q D. R1 (fst p) = R1 (snd p)"
  proof
    fix p assume p: "p \<in> insert q D"
    show "R1 (fst p) = R1 (snd p)"
    proof (cases "p = q")
      case True
      then show ?thesis using s1 by simp
    next
      case False
      with p have "p \<in> D" by simp
      with d have "R (fst p) = R (snd p)" by (rule bspec)
      with pr show ?thesis by blast
    qed
  qed
  have "ufState rings (insert q D) p1" unfolding ufState_def using i1 t1 c1 d1 by blast
  then show ?thesis using True u by (simp add: unionStep_def)
qed

lemma fold_unionStep:
  assumes "\<forall>p\<in>set ps. fst p < snd p \<and> snd p < length rings"
    and "ufState rings D parent"
  shows "\<exists>parent'. fold (unionStep rings) ps (Some parent) = Some parent'
           \<and> ufState rings
                (D \<union> {p \<in> set ps. significantOverlap (rings ! fst p) (rings ! snd p)}) parent'"
  using assms
proof (induction ps arbitrary: parent D)
  case Nil
  then show ?case by simp
next
  case (Cons q ps)
  have q: "fst q < length rings" "snd q < length rings" "fst q < snd q"
    and rest: "\<forall>p\<in>set ps. fst p < snd p \<and> snd p < length rings"
    using Cons.prems(1) by simp_all
  let ?D1 = "if significantOverlap (rings ! fst q) (rings ! snd q) then insert q D else D"
  from unionStep_correct [OF Cons.prems(2) q] obtain p1 where
    u: "unionStep rings q (Some parent) = Some p1" and s1: "ufState rings ?D1 p1"
    by blast
  from Cons.IH [OF rest s1] obtain p2 where
    f: "fold (unionStep rings) ps (Some p1) = Some p2"
    and s2: "ufState rings
               (?D1 \<union> {p \<in> set ps. significantOverlap (rings ! fst p) (rings ! snd p)}) p2"
    by blast
  have "?D1 \<union> {p \<in> set ps. significantOverlap (rings ! fst p) (rings ! snd p)}
        = D \<union> {p \<in> set (q # ps). significantOverlap (rings ! fst p) (rings ! snd p)}"
    by auto
  with s2 have "ufState rings
      (D \<union> {p \<in> set (q # ps). significantOverlap (rings ! fst p) (rings ! snd p)}) p2"
    by simp
  moreover have "fold (unionStep rings) (q # ps) (Some parent) = Some p2" using u f by simp
  ultimately show ?case by blast
qed

lemma set_indexPairs: "set (indexPairs n) = {p. fst p < snd p \<and> snd p < n}"
proof (intro set_eqI iffI)
  fix p assume "p \<in> set (indexPairs n)"
  then show "p \<in> {p. fst p < snd p \<and> snd p < n}" by (auto simp: indexPairs_def)
next
  fix p :: "nat \<times> nat" assume "p \<in> {p. fst p < snd p \<and> snd p < n}"
  then have a: "fst p < snd p" "snd p < n" by simp_all
  then have i: "fst p \<in> set [0..<n]" and j: "snd p \<in> set [fst p + 1..<n]" by simp_all
  from j have "(fst p, snd p) \<in> set (map (\<lambda>j. (fst p, j)) [fst p + 1..<n])"
    by (simp only: set_map) (rule imageI)
  with i have "(fst p, snd p) \<in> (\<Union>i\<in>set [0..<n]. set (map (\<lambda>j. (i, j)) [i + 1..<n]))"
    by (rule UN_I)
  then show "p \<in> set (indexPairs n)" by (simp add: indexPairs_def)
qed

lemma ufInv_init: "ufInv n (\<lambda>x. x) (\<lambda>x. 0) [0..<n]"
  by (simp add: ufInv_def)

lemma unionAll_correct:
  "\<exists>parent. unionAll rings = Some parent
     \<and> ufState rings {p. fst p < snd p \<and> snd p < length rings
                         \<and> significantOverlap (rings ! fst p) (rings ! snd p)} parent"
proof -
  let ?n = "length rings"
  have r: "\<forall>p\<in>set (indexPairs ?n). fst p < snd p \<and> snd p < ?n"
    by (auto simp: set_indexPairs)
  have "ufInv ?n (\<lambda>x. x) (\<lambda>x. 0) [0..<?n]
        \<and> (\<forall>x<?n. pattern_type (rings ! x) = pattern_type (rings ! x))
        \<and> (\<forall>x<?n. sameComponent rings x x)
        \<and> (\<forall>p\<in>{}. fst p = snd p)"
    using ufInv_init [of ?n] by (simp add: sameComponent_refl)
  then have "ufState rings {} [0..<?n]"
    unfolding ufState_def by (intro exI [of _ "\<lambda>x. x"] exI [of _ "\<lambda>x. 0"])
  from fold_unionStep [OF r this] obtain parent where
    f: "fold (unionStep rings) (indexPairs ?n) (Some [0..<?n]) = Some parent"
    and s: "ufState rings ({} \<union> {p \<in> set (indexPairs ?n).
                 significantOverlap (rings ! fst p) (rings ! snd p)}) parent"
    by blast
  have "{} \<union> {p \<in> set (indexPairs ?n). significantOverlap (rings ! fst p) (rings ! snd p)}
        = {p. fst p < snd p \<and> snd p < ?n \<and> significantOverlap (rings ! fst p) (rings ! snd p)}"
    by (auto simp: set_indexPairs)
  with s f show ?thesis unfolding unionAll_def by simp
qed


lemma keys_pushRing:
  "map fst (pushRing k r g) = (if k \<in> fst ` set g then map fst g else map fst g @ [k])"
  by (induction g) (fastforce simp: image_iff)+

lemma pushRing_has: "\<exists>rs. (k, rs) \<in> set (pushRing k r g) \<and> r \<in> set rs"
proof (induction g)
  case Nil
  show ?case by simp
next
  case (Cons e g)
  obtain k' rs' where e: "e = (k', rs')" by (cases e)
  show ?case
  proof (cases "k' = k")
    case True
    have "(k, rs' @ [r]) \<in> set (pushRing k r (e # g)) \<and> r \<in> set (rs' @ [r])"
      using True e by simp
    then show ?thesis by blast
  next
    case False
    from Cons.IH obtain rs where "(k, rs) \<in> set (pushRing k r g)" "r \<in> set rs" by blast
    then have "(k, rs) \<in> set (pushRing k r (e # g)) \<and> r \<in> set rs" using False e by simp
    then show ?thesis by blast
  qed
qed

lemma pushRing_mono:
  "(k', rs) \<in> set g \<Longrightarrow> \<exists>rs'. (k', rs') \<in> set (pushRing k r g) \<and> set rs \<subseteq> set rs'"
proof (induction g)
  case Nil
  then show ?case by simp
next
  case (Cons e g)
  obtain k1 rs1 where e: "e = (k1, rs1)" by (cases e)
  show ?case
  proof (cases "(k', rs) = e")
    case True
    show ?thesis
    proof (cases "k1 = k")
      case k: True
      have "(k', rs @ [r]) \<in> set (pushRing k r (e # g)) \<and> set rs \<subseteq> set (rs @ [r])"
        using True e k by auto
      then show ?thesis by blast
    next
      case k: False
      have "(k', rs) \<in> set (pushRing k r (e # g)) \<and> set rs \<subseteq> set rs"
        using True e k by auto
      then show ?thesis by blast
    qed
  next
    case False
    with Cons.prems have "(k', rs) \<in> set g" by simp
    from Cons.IH [OF this] obtain rs' where
      r: "(k', rs') \<in> set (pushRing k r g)" "set rs \<subseteq> set rs'" by blast
    show ?thesis
    proof (cases "k1 = k")
      case k: True
      then have "pushRing k r (e # g) = (k1, rs1 @ [r]) # g" using e by simp
      with \<open>(k', rs) \<in> set g\<close> have "(k', rs) \<in> set (pushRing k r (e # g)) \<and> set rs \<subseteq> set rs"
        by simp
      then show ?thesis by blast
    next
      case k: False
      then have "(k', rs') \<in> set (pushRing k r (e # g)) \<and> set rs \<subseteq> set rs'"
        using r e by simp
      then show ?thesis by blast
    qed
  qed
qed

lemma pushRing_from:
  assumes "(k', rs') \<in> set (pushRing k r g)"
  shows "(k' = k \<and> rs' = [r]) \<or> (k' = k \<and> (\<exists>rs. (k, rs) \<in> set g \<and> rs' = rs @ [r]))
         \<or> (k', rs') \<in> set g"
  using assms
proof (induction g)
  case Nil
  then show ?case by simp
next
  case (Cons e g)
  obtain k1 rs1 where e: "e = (k1, rs1)" by (cases e)
  show ?case
  proof (cases "k1 = k")
    case True
    with Cons.prems e have "(k', rs') = (k, rs1 @ [r]) \<or> (k', rs') \<in> set g" by simp
    then show ?thesis
    proof
      assume "(k', rs') = (k, rs1 @ [r])"
      then have "k' = k \<and> (\<exists>rs. (k, rs) \<in> set (e # g) \<and> rs' = rs @ [r])"
        using True e by auto
      then show ?thesis by blast
    next
      assume "(k', rs') \<in> set g"
      then show ?thesis by simp
    qed
  next
    case False
    with Cons.prems e have "(k', rs') = e \<or> (k', rs') \<in> set (pushRing k r g)" by auto
    then show ?thesis
    proof
      assume "(k', rs') = e"
      then show ?thesis by simp
    next
      assume "(k', rs') \<in> set (pushRing k r g)"
      from Cons.IH [OF this] show ?thesis by auto
    qed
  qed
qed

lemma groupsOk_push:
  assumes ok: "groupsOk rings R D groups"
  shows "groupsOk rings R (insert i D) (pushRing (R i) (rings ! i) groups)"
proof -
  let ?g' = "pushRing (R i) (rings ! i) groups"
  have d: "distinct (map fst ?g')" using ok by (simp add: keys_pushRing groupsOk_def)
  have ne: "\<forall>e\<in>set groups. snd e \<noteq> []" using ok by (simp add: groupsOk_def)
  have a: "\<forall>j\<in>insert i D. \<exists>rs. (R j, rs) \<in> set ?g' \<and> rings ! j \<in> set rs"
  proof
    fix j assume j: "j \<in> insert i D"
    show "\<exists>rs. (R j, rs) \<in> set ?g' \<and> rings ! j \<in> set rs"
    proof (cases "j \<in> D")
      case True
      with ok obtain rs where "(R j, rs) \<in> set groups" "rings ! j \<in> set rs"
        unfolding groupsOk_def by blast
      with pushRing_mono [of "R j" rs groups "R i" "rings ! i"] show ?thesis by blast
    next
      case False
      with j have "j = i" by simp
      then show ?thesis using pushRing_has [of "R i" "rings ! i" groups] by simp
    qed
  qed
  have b: "\<forall>g\<in>set ?g'. snd g \<noteq> []
            \<and> (\<forall>r\<in>set (snd g). \<exists>j\<in>insert i D. r = rings ! j \<and> R j = fst g)"
  proof
    fix g assume g: "g \<in> set ?g'"
    then have m: "(fst g, snd g) \<in> set ?g'" by simp
    note f = pushRing_from [OF m]
    have old: "(fst g, snd g) \<in> set groups \<Longrightarrow>
               snd g \<noteq> [] \<and> (\<forall>r\<in>set (snd g). \<exists>j\<in>D. r = rings ! j \<and> R j = fst g)"
      using ok unfolding groupsOk_def by fastforce
    from f consider (new) "fst g = R i" "snd g = [rings ! i]"
      | (ext) rs where "fst g = R i" "(R i, rs) \<in> set groups" "snd g = rs @ [rings ! i]"
      | (same) "(fst g, snd g) \<in> set groups"
      by blast
    then show "snd g \<noteq> [] \<and> (\<forall>r\<in>set (snd g). \<exists>j\<in>insert i D. r = rings ! j \<and> R j = fst g)"
    proof cases
      case new
      then show ?thesis by simp
    next
      case ext
      have "\<forall>r\<in>set rs. \<exists>j\<in>D. r = rings ! j \<and> R j = R i"
        using ok ext(2) unfolding groupsOk_def by fastforce
      then show ?thesis using ext(1,3) by auto
    next
      case same
      from old [OF this] show ?thesis by blast
    qed
  qed
  from d a b show ?thesis unfolding groupsOk_def by blast
qed

lemma fold_groupStep:
  assumes "\<forall>i\<in>set is. i < n" and "ufInv n R rk parent" and "groupsOk rings R D groups"
  shows "\<exists>parent' groups'. fold (groupStep rings) is (Some (parent, groups)) = Some (parent', groups')
           \<and> ufInv n R rk parent' \<and> groupsOk rings R (D \<union> set is) groups'"
  using assms
proof (induction "is" arbitrary: parent groups D)
  case Nil
  then show ?case by simp
next
  case (Cons i "is")
  have i: "i < n" and rest: "\<forall>j\<in>set is. j < n" using Cons.prems(1) by simp_all
  from find_correct [OF Cons.prems(2) i] obtain p1 where
    f: "find parent i = Some (p1, R i)" and i1: "ufInv n R rk p1" by blast
  have g1: "groupsOk rings R (insert i D) (pushRing (R i) (rings ! i) groups)"
    using Cons.prems(3) by (rule groupsOk_push)
  from Cons.IH [OF rest i1 g1] obtain p2 g2 where
    r: "fold (groupStep rings) is (Some (p1, pushRing (R i) (rings ! i) groups)) = Some (p2, g2)"
       "ufInv n R rk p2" "groupsOk rings R (insert i D \<union> set is) g2"
    by blast
  have "fold (groupStep rings) (i # is) (Some (parent, groups)) = Some (p2, g2)"
    using f r(1) by (simp add: groupStep_def)
  moreover have "insert i D \<union> set is = D \<union> set (i # is)" by auto
  ultimately show ?case using r(2,3) by auto
qed

lemma merge_structure:
  assumes "2 \<le> length rings"
  shows "\<exists>R groups. mergeOverlappingRings rings = Some (map (\<lambda>g. mergeGroup (snd g)) groups)
           \<and> groupsOk rings R {..<length rings} groups
           \<and> (\<forall>x<length rings. pattern_type (rings ! R x) = pattern_type (rings ! x))
           \<and> (\<forall>i j. i < j \<and> j < length rings \<and> significantOverlap (rings ! i) (rings ! j)
                  \<longrightarrow> R i = R j)"
proof -
  let ?n = "length rings"
  from unionAll_correct [of rings] obtain parent where
    u: "unionAll rings = Some parent"
    and s: "ufState rings {p. fst p < snd p \<and> snd p < ?n
                         \<and> significantOverlap (rings ! fst p) (rings ! snd p)} parent"
    by blast
  from s obtain R rk where inv: "ufInv ?n R rk parent"
    and ty: "\<forall>x<?n. pattern_type (rings ! R x) = pattern_type (rings ! x)"
    and d: "\<forall>p\<in>{p. fst p < snd p \<and> snd p < ?n
                         \<and> significantOverlap (rings ! fst p) (rings ! snd p)}. R (fst p) = R (snd p)"
    unfolding ufState_def by blast
  have g0: "groupsOk rings R {} []" by (simp add: groupsOk_def)
  have "\<forall>i\<in>set [0..<?n]. i < ?n" by simp
  from fold_groupStep [OF this inv g0] obtain p' groups where
    f: "fold (groupStep rings) [0..<?n] (Some (parent, [])) = Some (p', groups)"
    and g: "groupsOk rings R ({} \<union> set [0..<?n]) groups"
    by blast
  have "{} \<union> set [0..<?n] = {..<?n}" by auto
  with g have g': "groupsOk rings R {..<?n} groups" by simp
  have m: "mergeOverlappingRings rings = Some (map (\<lambda>g. mergeGroup (snd g)) groups)"
    using assms u f by (simp add: mergeOverlappingRings_def groupByRoot_def)
  have l: "\<forall>i j. i < j \<and> j < ?n \<and> significantOverlap (rings ! i) (rings ! j) \<longrightarrow> R i = R j"
  proof (intro allI impI)
    fix i j assume "i < j \<and> j < ?n \<and> significantOverlap (rings ! i) (rings ! j)"
    then have "(i, j) \<in> {p. fst p < snd p \<and> snd p < ?n
                         \<and> significantOverlap (rings ! fst p) (rings ! snd p)}" by simp
    with d have "R (fst (i, j)) = R (snd (i, j))" by (rule bspec)
    then show "R i = R j" by simp
  qed
  from m g' ty l show ?thesis by blast
qed


lemma mergeGroup_members:
  "r \<in> set rs \<Longrightarrow> set (member_accounts r) \<subseteq> set (member_accounts (mergeGroup rs))"
proof (cases "length rs = 1")
  case True
  assume "r \<in> set rs"
  with True have "rs = [r]" by (cases rs) auto
  then show ?thesis by (simp add: mergeGroup_def)
next
  case False
  assume "r \<in> set rs"
  with False show ?thesis by (auto simp: mergeGroup_def set_setOrder)
qed

lemma merge_unions_overlapping_aux:
  assumes "i < j" "j < length rings" "significantOverlap (rings ! i) (rings ! j)"
  shows "\<exists>out. mergeOverlappingRings rings = Some out
           \<and> (\<exists>m\<in>set out. set (member_accounts (rings ! i)) \<union> set (member_accounts (rings ! j))
                              \<subseteq> set (member_accounts m))"
proof -
  have "2 \<le> length rings" using assms(1,2) by simp
  from merge_structure [OF this] obtain R groups where
    m: "mergeOverlappingRings rings = Some (map (\<lambda>g. mergeGroup (snd g)) groups)"
    and g: "groupsOk rings R {..<length rings} groups"
    and l: "\<forall>i j. i < j \<and> j < length rings \<and> significantOverlap (rings ! i) (rings ! j)
                  \<longrightarrow> R i = R j"
    by blast
  from l assms have R: "R i = R j" by blast
  have "i \<in> {..<length rings}" "j \<in> {..<length rings}" using assms(1,2) by simp_all
  with g obtain rsi rsj where i: "(R i, rsi) \<in> set groups" "rings ! i \<in> set rsi"
    and j: "(R j, rsj) \<in> set groups" "rings ! j \<in> set rsj"
    unfolding groupsOk_def by blast
  have "distinct (map fst groups)" using g by (simp add: groupsOk_def)
  with i(1) j(1) R have "rsi = rsj" using entry_unique by fastforce
  with i(2) j(2) have "set (member_accounts (rings ! i)) \<union> set (member_accounts (rings ! j))
      \<subseteq> set (member_accounts (mergeGroup rsi))"
    using mergeGroup_members by blast
  moreover have "mergeGroup rsi \<in> set (map (\<lambda>g. mergeGroup (snd g)) groups)"
    using i(1) by force
  ultimately show ?thesis using m by blast
qed

text \<open>
  Claim C2, as the code has it: the merger always returns, and two rings of its input with
  the same pattern type and an overlap ratio above 0.5 are never emitted apart: one ring of
  the output contains the members of both. The bound is established between the rings of the
  input, once; it is not re-established between the rings of the output.
\<close>

theorem overlapping_rings_merged:
  assumes "i < j" "j < length rings"
    and "pattern_type (rings ! i) = pattern_type (rings ! j)"
    and "overlapRatio (rings ! i) (rings ! j) > 0.5"
  shows "\<exists>out. mergeOverlappingRings rings = Some out
           \<and> (\<exists>m\<in>set out. set (member_accounts (rings ! i)) \<union> set (member_accounts (rings ! j))
                              \<subseteq> set (member_accounts m))"
  using assms by (intro merge_unions_overlapping_aux) (simp_all add: significantOverlap_def)

lemma mergeGroup_fields:
  assumes "length grp \<noteq> 1"
  shows "set (member_accounts (mergeGroup grp)) = (\<Union>r\<in>set grp. set (member_accounts r))
     \<and> ring_id (mergeGroup grp) = ring_id (grp ! 0)
     \<and> pattern_type (mergeGroup grp) = pattern_type (grp ! 0)
     \<and> cycle_length (mergeGroup grp) = None \<and> chain_length (mergeGroup grp) = None
     \<and> amount_pattern (mergeGroup grp) = None \<and> temporal_window_hours (mergeGroup grp) = None
     \<and> ring_aggregator (mergeGroup grp) = None \<and> ring_disperser (mergeGroup grp) = None"
  using assms by (simp add: mergeGroup_def set_setOrder)

text \<open>
  The merger computes exactly the components: the groups are the components in input order.
\<close>

lemma pushRing_new: "k \<notin> fst ` set g \<Longrightarrow> pushRing k r g = g @ [(k, [r])]"
proof (induction g)
  case Nil
  show ?case by simp
next
  case (Cons e g)
  obtain k' rs where e: "e = (k', rs)" by (cases e)
  from Cons.prems e have ne: "k' \<noteq> k" and rest: "k \<notin> fst ` set g" by auto
  from Cons.IH [OF rest] ne e show ?case by simp
qed

lemma pushRing_old:
  "distinct (map fst g) \<Longrightarrow> k \<in> fst ` set g \<Longrightarrow>
   pushRing k r g = map (\<lambda>e. if fst e = k then (fst e, snd e @ [r]) else e) g"
proof (induction g)
  case Nil
  then show ?case by simp
next
  case (Cons e g)
  obtain k' rs where e: "e = (k', rs)" by (cases e)
  from Cons.prems(1) e have d: "distinct (map fst g)" and nk: "k' \<notin> fst ` set g" by auto
  show ?case
  proof (cases "k' = k")
    case True
    with nk have "\<forall>x\<in>set g. fst x \<noteq> k" by auto
    then have "map (\<lambda>e. if fst e = k then (fst e, snd e @ [r]) else e) g = g"
      by (induction g) auto
    with True e show ?thesis by simp
  next
    case False
    with Cons.prems(2) e have "k \<in> fst ` set g" by auto
    from Cons.IH [OF d this] False e show ?thesis by simp
  qed
qed


lemma leaders_roots:
  "R ` set (filter (\<lambda>i. \<forall>j<i. R j \<noteq> R i) [0..<t]) = R ` {..<t}"
proof (intro equalityI subsetI)
  fix k assume "k \<in> R ` set (filter (\<lambda>i. \<forall>j<i. R j \<noteq> R i) [0..<t])"
  then show "k \<in> R ` {..<t}" by auto
next
  fix k assume "k \<in> R ` {..<t}"
  then obtain j where j: "j < t" "k = R j" by auto
  define i where "i = (LEAST i. R i = R j)"
  have ri: "R i = R j" unfolding i_def by (rule LeastI [of "\<lambda>i. R i = R j" j]) simp
  have le: "i \<le> j" unfolding i_def by (rule Least_le) simp
  have first: "\<forall>j'<i. R j' \<noteq> R i"
  proof (intro allI impI)
    fix j' assume "j' < i"
    then have "\<not> R j' = R j" unfolding i_def by (rule not_less_Least)
    with ri show "R j' \<noteq> R i" by simp
  qed
  from le j(1) have "i < t" by simp
  with first have m: "i \<in> set (filter (\<lambda>i. \<forall>j<i. R j \<noteq> R i) [0..<t])" by simp
  have "k = R i" using ri j(2) by simp
  then show "k \<in> R ` set (filter (\<lambda>i. \<forall>j<i. R j \<noteq> R i) [0..<t])" using m by (rule image_eqI)
qed

lemma keys_groupsUpTo:
  "map fst (groupsUpTo rings R t) = map R (filter (\<lambda>i. \<forall>j<i. R j \<noteq> R i) [0..<t])"
  by (simp add: groupsUpTo_def o_def)

lemma distinct_groupsUpTo: "distinct (map fst (groupsUpTo rings R t))"
proof -
  let ?L = "filter (\<lambda>i. \<forall>j<i. R j \<noteq> R i) [0..<t]"
  have "inj_on R (set ?L)"
  proof (rule inj_onI)
    fix x y assume x: "x \<in> set ?L" and y: "y \<in> set ?L" and e: "R x = R y"
    from x have fx: "\<forall>j<x. R j \<noteq> R x" by simp
    from y have fy: "\<forall>j<y. R j \<noteq> R y" by simp
    show "x = y"
    proof (rule ccontr)
      assume "x \<noteq> y"
      then consider "x < y" | "y < x" by arith
      then show False
      proof cases
        case 1
        with fy have "R x \<noteq> R y" by blast
        with e show False by simp
      next
        case 2
        with fx have "R y \<noteq> R x" by blast
        with e show False by simp
      qed
    qed
  qed
  moreover have "distinct ?L" by simp
  ultimately have "distinct (map R ?L)" by (simp add: distinct_map)
  then show ?thesis by (simp only: keys_groupsUpTo)
qed

lemma groupsUpTo_Suc:
  "pushRing (R t) (rings ! t) (groupsUpTo rings R t) = groupsUpTo rings R (Suc t)"
proof (cases "R t \<in> R ` {..<t}")
  case True
  let ?L = "filter (\<lambda>i. \<forall>j<i. R j \<noteq> R i) [0..<t]"
  from True have nl: "\<not> (\<forall>j<t. R j \<noteq> R t)" by auto
  have L: "filter (\<lambda>i. \<forall>j<i. R j \<noteq> R i) [0..<Suc t] = ?L" using nl by simp
  have mem: "R t \<in> fst ` set (groupsUpTo rings R t)"
  proof -
    have "fst ` set (groupsUpTo rings R t) = set (map fst (groupsUpTo rings R t))" by simp
    also have "\<dots> = R ` set ?L" by (simp only: keys_groupsUpTo set_map)
    also have "\<dots> = R ` {..<t}" by (rule leaders_roots)
    finally show ?thesis using True by simp
  qed
  have "pushRing (R t) (rings ! t) (groupsUpTo rings R t)
        = map (\<lambda>e. if fst e = R t then (fst e, snd e @ [rings ! t]) else e) (groupsUpTo rings R t)"
    using distinct_groupsUpTo mem by (rule pushRing_old)
  also have "\<dots> = map (\<lambda>i. (R i, map ((!) rings) (filter (\<lambda>j. R j = R i) [0..<Suc t]))) ?L"
    unfolding groupsUpTo_def by (simp add: o_def) 
  also have "\<dots> = groupsUpTo rings R (Suc t)"
    unfolding groupsUpTo_def by (simp only: L)
  finally show ?thesis .
next
  case False
  let ?L = "filter (\<lambda>i. \<forall>j<i. R j \<noteq> R i) [0..<t]"
  have nl: "\<forall>j<t. R j \<noteq> R t"
  proof (intro allI impI notI)
    fix j assume "j < t" "R j = R t"
    then have "R t = R j" "j \<in> {..<t}" by simp_all
    then have "R t \<in> R ` {..<t}" by (rule image_eqI)
    with False show False by simp
  qed
  have L: "filter (\<lambda>i. \<forall>j<i. R j \<noteq> R i) [0..<Suc t] = ?L @ [t]" using nl by simp
  have nk: "R t \<notin> fst ` set (groupsUpTo rings R t)"
  proof -
    have "fst ` set (groupsUpTo rings R t) = set (map fst (groupsUpTo rings R t))" by simp
    also have "\<dots> = R ` set ?L" by (simp only: keys_groupsUpTo set_map)
    also have "\<dots> = R ` {..<t}" by (rule leaders_roots)
    finally show ?thesis using False by simp
  qed
  have none: "filter (\<lambda>j. R j = R t) [0..<t] = []" using nl by (simp add: filter_empty_conv)
  have old: "map (\<lambda>i. (R i, map ((!) rings) (filter (\<lambda>j. R j = R i) [0..<Suc t]))) ?L
             = map (\<lambda>i. (R i, map ((!) rings) (filter (\<lambda>j. R j = R i) [0..<t]))) ?L"
  proof (rule map_cong [OF refl])
    fix i assume "i \<in> set ?L"
    then have "i < t" by simp
    with nl have "R t \<noteq> R i" by (metis)
    then show "(R i, map ((!) rings) (filter (\<lambda>j. R j = R i) [0..<Suc t]))
               = (R i, map ((!) rings) (filter (\<lambda>j. R j = R i) [0..<t]))" by simp
  qed
  have "pushRing (R t) (rings ! t) (groupsUpTo rings R t) = groupsUpTo rings R t @ [(R t, [rings ! t])]"
    using nk by (rule pushRing_new)
  also have "\<dots> = groupsUpTo rings R (Suc t)"
    unfolding groupsUpTo_def L using old none by simp
  finally show ?thesis .
qed


lemma fold_groupStep_exact:
  assumes "ufInv n R rk parent" "t \<le> n"
  shows "\<exists>parent'. fold (groupStep rings) [0..<t] (Some (parent, []))
                      = Some (parent', groupsUpTo rings R t)
                   \<and> ufInv n R rk parent'"
  using assms(2)
proof (induction t)
  case 0
  then show ?case using assms(1) by (simp add: groupsUpTo_def)
next
  case (Suc t)
  then have "t \<le> n" and t: "t < n" by simp_all
  from Suc.IH [OF this(1)] obtain p1 where
    f: "fold (groupStep rings) [0..<t] (Some (parent, [])) = Some (p1, groupsUpTo rings R t)"
    and i1: "ufInv n R rk p1" by blast
  from find_correct [OF i1 t] obtain p2 where
    g: "find p1 t = Some (p2, R t)" and i2: "ufInv n R rk p2" by blast
  have "fold (groupStep rings) [0..<Suc t] (Some (parent, []))
        = groupStep rings t (Some (p1, groupsUpTo rings R t))"
    using f by simp
  also have "\<dots> = Some (p2, pushRing (R t) (rings ! t) (groupsUpTo rings R t))"
    using g by (simp add: groupStep_def)
  also have "\<dots> = Some (p2, groupsUpTo rings R (Suc t))" by (simp only: groupsUpTo_Suc)
  finally show ?case using i2 by blast
qed

lemma sameComponent_roots:
  assumes d: "\<forall>p\<in>overlapEdges rings. R (fst p) = R (snd p)"
    and c: "sameComponent rings i j"
  shows "R i = R j"
proof -
  from c have "(i, j) \<in> (overlapEdges rings \<union> (overlapEdges rings)\<inverse>)\<^sup>*"
    by (simp add: sameComponent_def)
  then show ?thesis
  proof (induction rule: rtrancl_induct)
    case base
    show ?case by simp
  next
    case (step y z)
    from step.hyps(2) have "R y = R z"
    proof
      assume "(y, z) \<in> overlapEdges rings"
      with d have "R (fst (y, z)) = R (snd (y, z))" by (rule bspec)
      then show ?thesis by simp
    next
      assume "(y, z) \<in> (overlapEdges rings)\<inverse>"
      then have "(z, y) \<in> overlapEdges rings" by simp
      with d have "R (fst (z, y)) = R (snd (z, y))" by (rule bspec)
      then show ?thesis by simp
    qed
    with step.IH show ?case by simp
  qed
qed

lemma sameComponent_pattern_type:
  assumes "sameComponent rings i j"
  shows "pattern_type (rings ! i) = pattern_type (rings ! j)"
proof -
  have d: "\<forall>p\<in>overlapEdges rings.
             pattern_type (rings ! fst p) = pattern_type (rings ! snd p)"
    by (simp add: overlapEdges_def significantOverlap_def)
  from d assms show ?thesis
    by (rule sameComponent_roots [where R = "\<lambda>x. pattern_type (rings ! x)"])
qed

lemma merge_exact_large:
  assumes "2 \<le> length rings"
  shows "mergeOverlappingRings rings
         = Some (map (\<lambda>i. mergeGroup (map ((!) rings) (componentOf rings i)))
                     (componentLeaders rings))"
proof -
  let ?n = "length rings"
  from unionAll_correct [of rings] obtain parent where
    u: "unionAll rings = Some parent"
    and s: "ufState rings {p. fst p < snd p \<and> snd p < ?n
                         \<and> significantOverlap (rings ! fst p) (rings ! snd p)} parent"
    by blast
  from s obtain R rk where inv: "ufInv ?n R rk parent"
    and sc: "\<forall>x<?n. sameComponent rings x (R x)"
    and d: "\<forall>p\<in>overlapEdges rings. R (fst p) = R (snd p)"
    unfolding ufState_def overlapEdges_def by blast
  have iff: "(R i = R j) = sameComponent rings i j" if "i < ?n" "j < ?n" for i j
  proof
    assume e: "R i = R j"
    from sc that have a: "sameComponent rings i (R i)" and b: "sameComponent rings j (R j)"
      by blast+
    from b have "sameComponent rings (R j) j" by (rule sameComponent_sym)
    with e have "sameComponent rings (R i) j" by simp
    with a show "sameComponent rings i j" by (rule sameComponent_trans)
  next
    assume "sameComponent rings i j"
    with d show "R i = R j" by (rule sameComponent_roots)
  qed
  from fold_groupStep_exact [OF inv order_refl, of rings] obtain p' where
    f: "fold (groupStep rings) [0..<?n] (Some (parent, [])) = Some (p', groupsUpTo rings R ?n)"
    by blast
  have m: "mergeOverlappingRings rings
           = Some (map (\<lambda>g. mergeGroup (snd g)) (groupsUpTo rings R ?n))"
    using assms u f by (simp add: mergeOverlappingRings_def groupByRoot_def)
  have leaders: "filter (\<lambda>i. \<forall>j<i. R j \<noteq> R i) [0..<?n] = componentLeaders rings"
    unfolding componentLeaders_def
  proof (rule filter_cong [OF refl])
    fix i assume "i \<in> set [0..<?n]"
    then have i: "i < ?n" by simp
    have "(R j \<noteq> R i) = (\<not> sameComponent rings j i)" if "j < i" for j
      using iff [of j i] that i by simp
    then show "(\<forall>j<i. R j \<noteq> R i) = (\<forall>j<i. \<not> sameComponent rings j i)" by simp
  qed
  have comp: "filter (\<lambda>j. R j = R i) [0..<?n] = componentOf rings i" if "i < ?n" for i
    unfolding componentOf_def
  proof (rule filter_cong [OF refl])
    fix j assume "j \<in> set [0..<?n]"
    then have "j < ?n" by simp
    with that have "(R i = R j) = sameComponent rings i j" by (rule iff)
    then show "(R j = R i) = sameComponent rings i j" by auto
  qed
  have "map (\<lambda>g. mergeGroup (snd g)) (groupsUpTo rings R ?n)
        = map (\<lambda>i. mergeGroup (map ((!) rings) (filter (\<lambda>j. R j = R i) [0..<?n])))
              (filter (\<lambda>i. \<forall>j<i. R j \<noteq> R i) [0..<?n])"
    by (simp add: groupsUpTo_def o_def)
  also have "\<dots> = map (\<lambda>i. mergeGroup (map ((!) rings) (filter (\<lambda>j. R j = R i) [0..<?n])))
                      (componentLeaders rings)"
    by (simp only: leaders)
  also have "\<dots> = map (\<lambda>i. mergeGroup (map ((!) rings) (componentOf rings i)))
                      (componentLeaders rings)"
  proof (rule map_cong [OF refl])
    fix i assume "i \<in> set (componentLeaders rings)"
    then have "i < ?n" by (simp add: componentLeaders_def)
    then show "mergeGroup (map ((!) rings) (filter (\<lambda>j. R j = R i) [0..<?n]))
               = mergeGroup (map ((!) rings) (componentOf rings i))"
      by (simp only: comp)
  qed
  finally show ?thesis using m by simp
qed

lemma leader_component:
  assumes "i \<in> set (componentLeaders rings)"
  shows "componentOf rings i = i # filter (\<lambda>j. sameComponent rings i j) [Suc i..<length rings]"
proof -
  from assms have i: "i < length rings" and first: "\<forall>j<i. \<not> sameComponent rings j i"
    by (simp_all add: componentLeaders_def)
  have none: "filter (\<lambda>j. sameComponent rings i j) [0..<i] = []"
  proof -
    have "\<forall>j\<in>set [0..<i]. \<not> sameComponent rings i j"
    proof
      fix j assume "j \<in> set [0..<i]"
      then have "j < i" by simp
      with first have "\<not> sameComponent rings j i" by blast
      then show "\<not> sameComponent rings i j" using sameComponent_sym by blast
    qed
    then show ?thesis by (simp only: filter_empty_conv) 
  qed
  have "[0..<length rings] = [0..<i + (length rings - i)]" using i by simp
  also have "\<dots> = [0..<i] @ [i..<i + (length rings - i)]"
    by (rule upt_add_eq_append) simp
  also have "[i..<i + (length rings - i)] = i # [Suc i..<length rings]"
    using i by (simp add: upt_conv_Cons)
  finally have "[0..<length rings] = [0..<i] @ i # [Suc i..<length rings]" .
  then have "componentOf rings i
             = filter (\<lambda>j. sameComponent rings i j) ([0..<i] @ i # [Suc i..<length rings])"
    by (simp only: componentOf_def)
  also have "\<dots> = i # filter (\<lambda>j. sameComponent rings i j) [Suc i..<length rings]"
    using none by (simp add: sameComponent_refl)
  finally show ?thesis .
qed

lemma merge_exact:
  "mergeOverlappingRings rings
   = Some (map (\<lambda>i. mergeGroup (map ((!) rings) (componentOf rings i)))
               (componentLeaders rings))"
proof (cases "2 \<le> length rings")
  case True
  then show ?thesis by (rule merge_exact_large)
next
  case False
  then consider "rings = []" | r where "rings = [r]"
    by (cases rings; cases "tl rings") auto
  then show ?thesis
  proof cases
    case 1
    then show ?thesis by (simp add: mergeOverlappingRings_def componentLeaders_def)
  next
    case 2
    then show ?thesis
      by (simp add: mergeOverlappingRings_def componentLeaders_def componentOf_def
          sameComponent_refl mergeGroup_def)
  qed
qed

text \<open>
  Claim C1, as the code has it. The merger returns one ring for every component of the input,
  in the order of the components' first rings. The group of a component is the list of its
  rings in input order, so its first ring is the ring of the smallest index. A ring that is
  alone in its component is emitted unchanged, with all its fields. A component of two or
  more rings, which all have one pattern type, gives a merged ring with the union of their
  members and the ring id and pattern type of the first ring of the group, and with none of
  the kind-specific fields (cycle_length, chain_length, amount_pattern,
  temporal_window_hours, hub identifiers).
\<close>

theorem merged_ring_fields:
  "\<exists>out. mergeOverlappingRings rings = Some out
     \<and> length out = length (componentLeaders rings)
     \<and> (\<forall>k<length out.
           let i = componentLeaders rings ! k; c = componentOf rings i; m = out ! k
           in c \<noteq> [] \<and> c ! 0 = i
              \<and> (length c = 1 \<longrightarrow> m = rings ! i)
              \<and> (length c \<noteq> 1 \<longrightarrow>
                    set (member_accounts m) = (\<Union>j\<in>set c. set (member_accounts (rings ! j)))
                    \<and> ring_id m = ring_id (rings ! i)
                    \<and> pattern_type m = pattern_type (rings ! i)
                    \<and> (\<forall>j\<in>set c. pattern_type (rings ! j) = pattern_type (rings ! i))
                    \<and> cycle_length m = None \<and> chain_length m = None
                    \<and> amount_pattern m = None \<and> temporal_window_hours m = None
                    \<and> ring_aggregator m = None \<and> ring_disperser m = None))"
proof -
  let ?out = "map (\<lambda>i. mergeGroup (map ((!) rings) (componentOf rings i))) (componentLeaders rings)"
  have all: "\<forall>k<length ?out.
           let i = componentLeaders rings ! k; c = componentOf rings i; m = ?out ! k
           in c \<noteq> [] \<and> c ! 0 = i
              \<and> (length c = 1 \<longrightarrow> m = rings ! i)
              \<and> (length c \<noteq> 1 \<longrightarrow>
                    set (member_accounts m) = (\<Union>j\<in>set c. set (member_accounts (rings ! j)))
                    \<and> ring_id m = ring_id (rings ! i)
                    \<and> pattern_type m = pattern_type (rings ! i)
                    \<and> (\<forall>j\<in>set c. pattern_type (rings ! j) = pattern_type (rings ! i))
                    \<and> cycle_length m = None \<and> chain_length m = None
                    \<and> amount_pattern m = None \<and> temporal_window_hours m = None
                    \<and> ring_aggregator m = None \<and> ring_disperser m = None)"
  proof (intro allI impI)
    fix k assume "k < length ?out"
    then have k: "k < length (componentLeaders rings)" by simp
    define i where "i = componentLeaders rings ! k"
    define c where "c = componentOf rings i"
    define grp where "grp = map ((!) rings) c"
    have il: "i \<in> set (componentLeaders rings)" unfolding i_def using k by (rule nth_mem)
    have mk: "?out ! k = mergeGroup grp" using k by (simp add: i_def c_def grp_def)
    from leader_component [OF il] have ne: "c \<noteq> []" and c0: "c ! 0 = i"
      by (simp_all add: c_def)
    have g0: "grp ! 0 = rings ! i" using ne c0 by (simp add: grp_def)
    have lg: "length grp = length c" by (simp add: grp_def)
    have one: "length c = 1 \<longrightarrow> mergeGroup grp = rings ! i"
      using g0 lg by (simp add: mergeGroup_def)
    have pts: "\<forall>j\<in>set c. pattern_type (rings ! j) = pattern_type (rings ! i)"
    proof
      fix j assume "j \<in> set c"
      then have "sameComponent rings i j" by (simp add: c_def componentOf_def)
      then show "pattern_type (rings ! j) = pattern_type (rings ! i)"
        using sameComponent_pattern_type by fastforce
    qed
    have many: "length c \<noteq> 1 \<longrightarrow>
                    set (member_accounts (mergeGroup grp))
                      = (\<Union>j\<in>set c. set (member_accounts (rings ! j)))
                    \<and> ring_id (mergeGroup grp) = ring_id (rings ! i)
                    \<and> pattern_type (mergeGroup grp) = pattern_type (rings ! i)
                    \<and> cycle_length (mergeGroup grp) = None \<and> chain_length (mergeGroup grp) = None
                    \<and> amount_pattern (mergeGroup grp) = None
                    \<and> temporal_window_hours (mergeGroup grp) = None
                    \<and> ring_aggregator (mergeGroup grp) = None
                    \<and> ring_disperser (mergeGroup grp) = None"
    proof
      assume "length c \<noteq> 1"
      then have "length grp \<noteq> 1" using lg by simp
      from mergeGroup_fields [OF this] g0
      show "set (member_accounts (mergeGroup grp))
                      = (\<Union>j\<in>set c. set (member_accounts (rings ! j)))
                    \<and> ring_id (mergeGroup grp) = ring_id (rings ! i)
                    \<and> pattern_type (mergeGroup grp) = pattern_type (rings ! i)
                    \<and> cycle_length (mergeGroup grp) = None \<and> chain_length (mergeGroup grp) = None
                    \<and> amount_pattern (mergeGroup grp) = None
                    \<and> temporal_window_hours (mergeGroup grp) = None
                    \<and> ring_aggregator (mergeGroup grp) = None
                    \<and> ring_disperser (mergeGroup grp) = None"
        by (simp add: grp_def)
    qed
    from ne c0 one many pts
    show "let i = componentLeaders rings ! k; c = componentOf rings i; m = ?out ! k
           in c \<noteq> [] \<and> c ! 0 = i
              \<and> (length c = 1 \<longrightarrow> m = rings ! i)
              \<and> (length c \<noteq> 1 \<longrightarrow>
                    set (member_accounts m) = (\<Union>j\<in>set c. set (member_accounts (rings ! j)))
                    \<and> ring_id m = ring_id (rings ! i)
                    \<and> pattern_type m = pattern_type (rings ! i)
                    \<and> (\<forall>j\<in>set c. pattern_type (rings ! j) = pattern_type (rings ! i))
                    \<and> cycle_length m = None \<and> chain_length m = None
                    \<and> amount_pattern m = None \<and> temporal_window_hours m = None
                    \<and> ring_aggregator m = None \<and> ring_disperser m = None)"
      unfolding Let_def mk i_def [symmetric] c_def [symmetric] by blast
  qed
  have "mergeOverlappingRings rings = Some ?out" by (rule merge_exact)
  moreover have "length ?out = length (componentLeaders rings)" by simp
  ultimately show ?thesis using all by blast
qed

lemma cycle_merge:
  "mergeOverlappingRings cycleRings
   = Some [mergedRing ''RING_001'' [''A'', ''B'', ''C'', ''D''] cycle 80,
           cycleRing ''RING_003'' [''A'', ''D'', ''E'']]"
  by code_simp

lemma shell_merge:
  "mergeOverlappingRings shellRings
   = Some [mergedRing ''RING_001'' [''O1'', ''S1'', ''S2'', ''E1'', ''E2''] shell_network 90]"
  by code_simp

theorem overlapping_rings_merged_witness:
  "(0::nat) < 1 \<and> 1 < length cycleRings
   \<and> pattern_type (cycleRings ! 0) = pattern_type (cycleRings ! 1)
   \<and> overlapRatio (cycleRings ! 0) (cycleRings ! 1) > 0.5
   \<and> (\<exists>out. mergeOverlappingRings cycleRings = Some out
         \<and> (\<exists>m\<in>set out. set (member_accounts (cycleRings ! 0))
                            \<union> set (member_accounts (cycleRings ! 1))
                            \<subseteq> set (member_accounts m)))"
proof -
  have h: "(0::nat) < 1" "1 < length cycleRings"
    "pattern_type (cycleRings ! 0) = pattern_type (cycleRings ! 1)"
    "overlapRatio (cycleRings ! 0) (cycleRings ! 1) > 0.5"
    by (simp_all add: cycleRings_def cycleRing_def overlapRatio_def)
  from overlapping_rings_merged [OF h] h show ?thesis by blast
qed

text \<open>
  Claim C2 as stated fails: of three cycle rings, the first two are merged, and the merged
  ring shares two of the three members of the third ring, which stays apart.
\<close>

theorem merged_overlap_counterexample:
  "mergeOverlappingRings cycleRings
   = Some [mergedRing ''RING_001'' [''A'', ''B'', ''C'', ''D''] cycle 80,
           cycleRing ''RING_003'' [''A'', ''D'', ''E'']]
   \<and> pattern_type (mergedRing ''RING_001'' [''A'', ''B'', ''C'', ''D''] cycle 80)
     = pattern_type (cycleRing ''RING_003'' [''A'', ''D'', ''E''])
   \<and> overlapRatio (mergedRing ''RING_001'' [''A'', ''B'', ''C'', ''D''] cycle 80)
                   (cycleRing ''RING_003'' [''A'', ''D'', ''E'']) = 2 / 3"
  by (simp add: cycle_merge) (simp add: mergedRing_def cycleRing_def overlapRatio_def)

lemma cycle_component: "sameComponent cycleRings 0 1"
proof -
  have "fst (0::nat, 1::nat) < snd (0::nat, 1::nat)" by simp
  moreover have "snd (0::nat, 1::nat) < length cycleRings" by (simp add: cycleRings_def)
  moreover have "significantOverlap (cycleRings ! fst (0::nat, 1::nat)) (cycleRings ! snd (0::nat, 1::nat))"
    by (simp add: cycleRings_def cycleRing_def significantOverlap_def overlapRatio_def)
  ultimately have "sameComponent cycleRings (fst (0::nat, 1::nat)) (snd (0::nat, 1::nat))"
    by (rule sameComponent_edge)
  then show ?thesis by simp
qed

lemma cycle_leaders_cases:
  "componentLeaders cycleRings = [0] \<or> componentLeaders cycleRings = [0, 2]"
proof -
  have "length cycleRings = 3" by (simp add: cycleRings_def)
  moreover have "[0..<3] = [0, 1, 2::nat]" by code_simp
  ultimately have "componentLeaders cycleRings
             = filter (\<lambda>i. \<forall>j<i. \<not> sameComponent cycleRings j i) [0, 1, 2]"
    by (simp only: componentLeaders_def)
  moreover have "\<not> (\<forall>j<1::nat. \<not> sameComponent cycleRings j 1)"
    using cycle_component by simp
  ultimately show ?thesis by simp
qed

text \<open>
  On the three cycle rings the components are the first two rings and the third ring alone:
  the first two are merged under the id of the first, without a cycle_length, and the third
  is emitted unchanged.
\<close>

theorem merged_ring_fields_witness:
  "componentLeaders cycleRings = [0, 2]
   \<and> componentOf cycleRings 0 = [0, 1] \<and> componentOf cycleRings 2 = [2]
   \<and> (\<exists>out. mergeOverlappingRings cycleRings = Some out \<and> length out = 2
          \<and> ring_id (out ! 0) = ''RING_001'' \<and> pattern_type (out ! 0) = cycle
          \<and> set (member_accounts (out ! 0)) = {''A'', ''B'', ''C'', ''D''}
          \<and> cycle_length (out ! 0) = None
          \<and> out ! 1 = cycleRing ''RING_003'' [''A'', ''D'', ''E''])"
proof -
  from merged_ring_fields [of cycleRings] obtain out where
    m: "mergeOverlappingRings cycleRings = Some out"
    and l: "length out = length (componentLeaders cycleRings)"
    and a: "\<forall>k<length out.
           let i = componentLeaders cycleRings ! k; c = componentOf cycleRings i; m = out ! k
           in c \<noteq> [] \<and> c ! 0 = i
              \<and> (length c = 1 \<longrightarrow> m = cycleRings ! i)
              \<and> (length c \<noteq> 1 \<longrightarrow>
                    set (member_accounts m) = (\<Union>j\<in>set c. set (member_accounts (cycleRings ! j)))
                    \<and> ring_id m = ring_id (cycleRings ! i)
                    \<and> pattern_type m = pattern_type (cycleRings ! i)
                    \<and> (\<forall>j\<in>set c. pattern_type (cycleRings ! j) = pattern_type (cycleRings ! i))
                    \<and> cycle_length m = None \<and> chain_length m = None
                    \<and> amount_pattern m = None \<and> temporal_window_hours m = None
                    \<and> ring_aggregator m = None \<and> ring_disperser m = None)"
    by blast
  have n: "length cycleRings = 3" by (simp add: cycleRings_def)
  from m cycle_merge
  have "out = [mergedRing ''RING_001'' [''A'', ''B'', ''C'', ''D''] cycle 80,
               cycleRing ''RING_003'' [''A'', ''D'', ''E'']]" by simp
  then have "length out = 2" by simp
  with l cycle_leaders_cases have ld: "componentLeaders cycleRings = [0, 2]" by auto
  then have "2 \<in> set (componentLeaders cycleRings)" by simp
  then have "\<forall>j<2::nat. \<not> sameComponent cycleRings j 2" by (simp add: componentLeaders_def)
  then have "\<not> sameComponent cycleRings 0 2" "\<not> sameComponent cycleRings 1 2" by simp_all
  then have n02: "\<not> sameComponent cycleRings 0 2" and n20: "\<not> sameComponent cycleRings 2 0"
    and n21: "\<not> sameComponent cycleRings 2 1"
    using sameComponent_sym by blast+
  have u: "[0..<3] = [0, 1, 2::nat]" by code_simp
  have "componentOf cycleRings 0 = filter (\<lambda>j. sameComponent cycleRings 0 j) [0, 1, 2]"
    by (simp only: componentOf_def n u)
  then have c0: "componentOf cycleRings 0 = [0, 1]"
    using cycle_component n02 by (simp add: sameComponent_refl)
  have "componentOf cycleRings 2 = filter (\<lambda>j. sameComponent cycleRings 2 j) [0, 1, 2]"
    by (simp only: componentOf_def n u)
  then have c2: "componentOf cycleRings 2 = [2]"
    using n20 n21 by (simp add: sameComponent_refl)
  from l ld have l2: "length out = 2" by simp
  then have "0 < length out" by simp
  with a have "let i = componentLeaders cycleRings ! 0; c = componentOf cycleRings i; m = out ! 0
           in c \<noteq> [] \<and> c ! 0 = i
              \<and> (length c = 1 \<longrightarrow> m = cycleRings ! i)
              \<and> (length c \<noteq> 1 \<longrightarrow>
                    set (member_accounts m) = (\<Union>j\<in>set c. set (member_accounts (cycleRings ! j)))
                    \<and> ring_id m = ring_id (cycleRings ! i)
                    \<and> pattern_type m = pattern_type (cycleRings ! i)
                    \<and> (\<forall>j\<in>set c. pattern_type (cycleRings ! j) = pattern_type (cycleRings ! i))
                    \<and> cycle_length m = None \<and> chain_length m = None
                    \<and> amount_pattern m = None \<and> temporal_window_hours m = None
                    \<and> ring_aggregator m = None \<and> ring_disperser m = None)"
    by blast
  then have "set (member_accounts (out ! 0))
               = (\<Union>j\<in>set [0, 1]. set (member_accounts (cycleRings ! j)))
             \<and> ring_id (out ! 0) = ring_id (cycleRings ! 0)
             \<and> pattern_type (out ! 0) = pattern_type (cycleRings ! 0)
             \<and> cycle_length (out ! 0) = None"
    by (simp add: Let_def ld c0)
  then have first: "ring_id (out ! 0) = ''RING_001'' \<and> pattern_type (out ! 0) = cycle
          \<and> set (member_accounts (out ! 0)) = {''A'', ''B'', ''C'', ''D''}
          \<and> cycle_length (out ! 0) = None"
    by (auto simp: cycleRings_def cycleRing_def)
  from l2 have "1 < length out" by simp
  with a have "let i = componentLeaders cycleRings ! 1; c = componentOf cycleRings i; m = out ! 1
           in c \<noteq> [] \<and> c ! 0 = i
              \<and> (length c = 1 \<longrightarrow> m = cycleRings ! i)
              \<and> (length c \<noteq> 1 \<longrightarrow>
                    set (member_accounts m) = (\<Union>j\<in>set c. set (member_accounts (cycleRings ! j)))
                    \<and> ring_id m = ring_id (cycleRings ! i)
                    \<and> pattern_type m = pattern_type (cycleRings ! i)
                    \<and> (\<forall>j\<in>set c. pattern_type (cycleRings ! j) = pattern_type (cycleRings ! i))
                    \<and> cycle_length m = None \<and> chain_length m = None
                    \<and> amount_pattern m = None \<and> temporal_window_hours m = None
                    \<and> ring_aggregator m = None \<and> ring_disperser m = None)"
    by blast
  then have "out ! 1 = cycleRings ! 2" by (simp add: Let_def ld c2)
  then have second: "out ! 1 = cycleRing ''RING_003'' [''A'', ''D'', ''E'']"
    by (simp add: cycleRings_def)
  from m l2 first second ld c0 c2 show ?thesis by blast
qed

text \<open>
  Claim C1 as stated fails: two shell rings with chain_length 4 that share three members are
  merged into a ring of kind shell_network that carries no chain_length.
\<close>

theorem merged_chain_length_counterexample:
  "mergeOverlappingRings shellRings
   = Some [mergedRing ''RING_001'' [''O1'', ''S1'', ''S2'', ''E1'', ''E2''] shell_network 90]
   \<and> chain_length (shellRings ! 0) = Some 4 \<and> chain_length (shellRings ! 1) = Some 4
   \<and> pattern_type (shellRings ! 0) = shell_network \<and> pattern_type (shellRings ! 1) = shell_network
   \<and> pattern_type (mergedRing ''RING_001'' [''O1'', ''S1'', ''S2'', ''E1'', ''E2''] shell_network 90)
     = shell_network
   \<and> chain_length (mergedRing ''RING_001'' [''O1'', ''S1'', ''S2'', ''E1'', ''E2''] shell_network 90)
     = None"
  by (simp add: shell_merge) (simp add: mergedRing_def shellRings_def shellRing_def)

section \<open>The ring id of a suspicious account\<close>

lemma ringIdOf_nonempty: "ringIdOf n \<noteq> []"
  by (simp add: ringIdOf_def)

lemma keys_addAccountSuspicion:
  "map fst (addAccountSuspicion m a sc p rid)
   = (if a \<in> fst ` set m then map fst m else map fst m @ [a])"
proof -
  have "\<And>xs g. map fst (map (\<lambda>entry. if fst entry = a then (a, g entry) else entry) xs)
              = map fst (xs :: (account \<times> suspicion_data) list)"
    by (simp add: comp_def if_distrib cong: if_cong)
  then show ?thesis by (simp add: addAccountSuspicion_def Let_def)
qed

lemma map_of_update_entries:
  "map_of (map (\<lambda>entry. if fst entry = a then (a, g (snd entry)) else entry) xs) b
   = (if b = a then map_option g (map_of xs a) else map_of xs b)"
  by (induction xs) auto

lemma map_of_addAccountSuspicion:
  "map_of (addAccountSuspicion m a sc p rid) b
   = (if b = a
      then Some ((case map_of m a of
                    None \<Rightarrow> \<lparr>maxScore = sc, patterns = [], ringIds = []\<rparr>
                  | Some d \<Rightarrow> d)
                 \<lparr>maxScore := max (maxScore (case map_of m a of
                                                None \<Rightarrow> \<lparr>maxScore = sc, patterns = [], ringIds = []\<rparr>
                                              | Some d \<Rightarrow> d)) sc,
                   patterns := (if p \<in> set (patterns (case map_of m a of
                                                None \<Rightarrow> \<lparr>maxScore = sc, patterns = [], ringIds = []\<rparr>
                                              | Some d \<Rightarrow> d))
                                then patterns (case map_of m a of
                                                None \<Rightarrow> \<lparr>maxScore = sc, patterns = [], ringIds = []\<rparr>
                                              | Some d \<Rightarrow> d)
                                else patterns (case map_of m a of
                                                None \<Rightarrow> \<lparr>maxScore = sc, patterns = [], ringIds = []\<rparr>
                                              | Some d \<Rightarrow> d) @ [p]),
                   ringIds := (if rid \<in> set (ringIds (case map_of m a of
                                                None \<Rightarrow> \<lparr>maxScore = sc, patterns = [], ringIds = []\<rparr>
                                              | Some d \<Rightarrow> d))
                               then ringIds (case map_of m a of
                                                None \<Rightarrow> \<lparr>maxScore = sc, patterns = [], ringIds = []\<rparr>
                                              | Some d \<Rightarrow> d)
                               else ringIds (case map_of m a of
                                                None \<Rightarrow> \<lparr>maxScore = sc, patterns = [], ringIds = []\<rparr>
                                              | Some d \<Rightarrow> d) @ [rid])\<rparr>)
      else map_of m b)"
proof -
  define g where "g = (\<lambda>d :: suspicion_data. d\<lparr>maxScore := max (maxScore d) sc,
                          patterns := (if p \<in> set (patterns d) then patterns d
                                       else patterns d @ [p]),
                          ringIds := (if rid \<in> set (ringIds d) then ringIds d
                                      else ringIds d @ [rid])\<rparr>)"
  define m1 where "m1 = (if a \<in> fst ` set m then m
                         else m @ [(a, \<lparr>maxScore = sc, patterns = [], ringIds = []\<rparr>)])"
  have e: "addAccountSuspicion m a sc p rid
           = map (\<lambda>entry. if fst entry = a then (a, g (snd entry)) else entry) m1"
    by (simp add: addAccountSuspicion_def Let_def g_def m1_def)
  have m1a: "map_of m1 a = Some (case map_of m a of
                                   None \<Rightarrow> \<lparr>maxScore = sc, patterns = [], ringIds = []\<rparr>
                                 | Some d \<Rightarrow> d)"
  proof (cases "a \<in> fst ` set m")
    case True
    then obtain d where "map_of m a = Some d"
      by (metis domD dom_map_of_conv_image_fst)
    with True show ?thesis by (simp add: m1_def)
  next
    case False
    then have "map_of m a = None" by (simp add: map_of_eq_None_iff)
    with False show ?thesis by (simp add: m1_def map_add_def)
  qed
  have m1b: "b \<noteq> a \<Longrightarrow> map_of m1 b = map_of m b"
    by (simp add: m1_def map_add_def split: option.splits)
  have "map_of (addAccountSuspicion m a sc p rid) b
        = (if b = a then map_option g (map_of m1 a) else map_of m1 b)"
    unfolding e by (rule map_of_update_entries)
  then show ?thesis using m1a m1b by (simp add: g_def)
qed

lemma primaryRing_addAccountSuspicion:
  "primaryRing (addAccountSuspicion m a sc p rid) b
   = (if b = a then (case primaryRing m a of None \<Rightarrow> Some rid | Some x \<Rightarrow> Some x)
      else primaryRing m b)"
  by (simp add: primaryRing_def map_of_addAccountSuspicion split: option.splits list.splits)

text \<open>A sequence of calls with one ring id.\<close>

lemma keys_flag:
  "fst ` set (fold (\<lambda>c m. addAccountSuspicion m (fst c) sc (snd c) rid) cs m)
   = fst ` set m \<union> fst ` set cs"
proof (induction cs arbitrary: m)
  case Nil
  show ?case by simp
next
  case (Cons c cs)
  have "fst ` set (addAccountSuspicion m (fst c) sc (snd c) rid) = insert (fst c) (fst ` set m)"
    using keys_addAccountSuspicion [of m "fst c" sc "snd c" rid]
    by (metis (no_types, lifting) Un_insert_right insert_absorb list.set(2) list.set_map
        set_append sup_bot.right_neutral list.simps(15) empty_set)
  with Cons.IH [of "addAccountSuspicion m (fst c) sc (snd c) rid"] show ?case by auto
qed

lemma distinct_flag:
  "distinct (map fst m)
   \<Longrightarrow> distinct (map fst (fold (\<lambda>c m. addAccountSuspicion m (fst c) sc (snd c) rid) cs m))"
proof (induction cs arbitrary: m)
  case Nil
  then show ?case by simp
next
  case (Cons c cs)
  have "distinct (map fst (addAccountSuspicion m (fst c) sc (snd c) rid))"
    using Cons.prems by (simp add: keys_addAccountSuspicion)
  from Cons.IH [OF this] show ?case by simp
qed

lemma primaryRing_flag:
  "primaryRing (fold (\<lambda>c m. addAccountSuspicion m (fst c) sc (snd c) rid) cs m) b
   = (if b \<in> fst ` set cs
      then (case primaryRing m b of None \<Rightarrow> Some rid | Some x \<Rightarrow> Some x)
      else primaryRing m b)"
proof (induction cs arbitrary: m)
  case Nil
  show ?case by simp
next
  case (Cons c cs)
  show ?case
    by (simp add: Cons.IH primaryRing_addAccountSuspicion split: option.splits)
qed

lemma ringsContaining_snoc:
  "ringsContaining a (rings @ [r])
   = ringsContaining a rings @ (if a \<in> set (member_accounts r) then [r] else [])"
  by (simp add: ringsContaining_def)

text \<open>One iteration of any of the three loops keeps the invariant.\<close>

lemma engineInv_step:
  assumes inv: "engineInv st"
    and ms: "set (member_accounts r) = fst ` set cs"
  shows "engineInv \<lparr>ringCounter = n, fraudRings = fraudRings st @ [r],
                    accountSuspicionMap =
                      fold (\<lambda>c m. addAccountSuspicion m (fst c) sc (snd c) (ring_id r)) cs
                           (accountSuspicionMap st)\<rparr>"
proof -
  let ?M = "accountSuspicionMap st"
  let ?R = "fraudRings st"
  from inv have d: "distinct (map fst ?M)"
    and k: "\<And>a. (a \<in> fst ` set ?M) = (ringsContaining a ?R \<noteq> [])"
    and p: "\<And>a. primaryRing ?M a
             = (case ringsContaining a ?R of [] \<Rightarrow> None | r # rs \<Rightarrow> Some (ring_id r))"
    by (simp_all add: engineInv_def)
  have "\<And>a. primaryRing (fold (\<lambda>c m. addAccountSuspicion m (fst c) sc (snd c) (ring_id r)) cs ?M) a
          = (case ringsContaining a (?R @ [r]) of [] \<Rightarrow> None | r # rs \<Rightarrow> Some (ring_id r))"
    by (simp add: primaryRing_flag p ringsContaining_snoc ms split: list.splits)
  moreover have "\<And>a. (a \<in> fst ` set (fold (\<lambda>c m. addAccountSuspicion m (fst c) sc (snd c) (ring_id r)) cs ?M))
          = (ringsContaining a (?R @ [r]) \<noteq> [])"
    using k by (simp add: keys_flag ringsContaining_snoc ms)
  ultimately show ?thesis
    using distinct_flag [OF d] by (simp add: engineInv_def)
qed

lemma engineInv_processCycle: "engineInv st \<Longrightarrow> engineInv (processCycle scoreCycle cyc st)"
proof -
  assume inv: "engineInv st"
  let ?rid = "ringIdOf (ringCounter st)"
  let ?pat = "''cycle_length_'' @ decimal (length cyc)"
  let ?r = "\<lparr>ring_id = ?rid, member_accounts = cyc, pattern_type = cycle,
              risk_score = roundTo 10 (scoreCycle cyc), cycle_length = Some (length cyc),
              chain_length = None, amount_pattern = None, temporal_window_hours = None,
              ring_aggregator = None, ring_disperser = None\<rparr>"
  let ?cs = "map (\<lambda>a. (a, ?pat)) cyc"
  have f: "fold (\<lambda>account m. addAccountSuspicion m account (scoreCycle cyc) ?pat ?rid) cyc
                (accountSuspicionMap st)
           = fold (\<lambda>c m. addAccountSuspicion m (fst c) (scoreCycle cyc) (snd c) (ring_id ?r)) ?cs
                  (accountSuspicionMap st)"
    by (simp add: fold_map comp_def)
  have ms: "set (member_accounts ?r) = fst ` set ?cs" by (simp add: image_comp comp_def)
  from engineInv_step [OF inv ms, of "ringCounter st + 1" "scoreCycle cyc"]
  show ?thesis unfolding processCycle_def Let_def f .
qed

lemma fold_concat_map: "fold f (concat (map g xs)) m = fold (\<lambda>x. fold f (g x)) xs m"
  by (induction xs arbitrary: m) simp_all

lemma smurfPatterns_nonempty: "smurfPatterns grp \<noteq> []"
  by (cases "smurfType grp") (simp_all add: smurfPatterns_def)

lemma engineInv_processSmurf: "engineInv st \<Longrightarrow> engineInv (processSmurf grp st)"
proof -
  assume inv: "engineInv st"
  let ?rid = "ringIdOf (ringCounter st)"
  let ?ms = "setOrder (members grp)"
  let ?r = "\<lparr>ring_id = ?rid, member_accounts = ?ms, pattern_type = smurf (smurfType grp),
              risk_score = roundTo 10 (of_int (score grp)), cycle_length = None,
              chain_length = None, amount_pattern = None,
              temporal_window_hours = temporalWindowHours grp,
              ring_aggregator = orNull (aggregatorNode grp),
              ring_disperser = orNull (disperserNode grp)\<rparr>"
  let ?cs = "concat (map (\<lambda>a. map (\<lambda>p. (a, p)) (smurfPatterns grp)) ?ms)"
  have f: "fold (\<lambda>account m.
                    fold (\<lambda>pattern m'. addAccountSuspicion m' account (of_int (score grp)) pattern ?rid)
                         (smurfPatterns grp) m)
                ?ms (accountSuspicionMap st)
           = fold (\<lambda>c m. addAccountSuspicion m (fst c) (of_int (score grp)) (snd c) (ring_id ?r)) ?cs
                  (accountSuspicionMap st)"
    by (simp add: fold_concat_map fold_map comp_def)
  obtain p0 where p0: "p0 \<in> set (smurfPatterns grp)"
    using smurfPatterns_nonempty [of grp] by (cases "smurfPatterns grp") auto
  have ms: "set (member_accounts ?r) = fst ` set ?cs"
  proof
    show "set (member_accounts ?r) \<subseteq> fst ` set ?cs"
    proof
      fix a assume "a \<in> set (member_accounts ?r)"
      then have "(a, p0) \<in> set ?cs" using p0 by auto
      then show "a \<in> fst ` set ?cs" by (rule image_eqI [rotated]) simp
    qed
    show "fst ` set ?cs \<subseteq> set (member_accounts ?r)" by auto
  qed
  from engineInv_step [OF inv ms, of "ringCounter st + 1" "of_int (score grp)"]
  show ?thesis unfolding processSmurf_def Let_def f .
qed

lemma engineInv_processShell: "engineInv st \<Longrightarrow> engineInv (processShell c st)"
proof -
  assume inv: "engineInv st"
  let ?rid = "ringIdOf (ringCounter st)"
  let ?r = "\<lparr>ring_id = ?rid, member_accounts = chain c, pattern_type = shell_network,
              risk_score = roundTo 10 (of_int (chainScore c)), cycle_length = None,
              chain_length = Some (length (chain c)), amount_pattern = Some (amountPattern c),
              temporal_window_hours = None, ring_aggregator = None, ring_disperser = None\<rparr>"
  let ?cs = "map (\<lambda>a. (a, if a \<in> set (shellAccounts c) then ''shell_intermediary''
                           else ''shell_network_endpoint'')) (chain c)"
  have f: "fold (\<lambda>account m.
                    addAccountSuspicion m account (of_int (chainScore c))
                      (if account \<in> set (shellAccounts c) then ''shell_intermediary''
                       else ''shell_network_endpoint'')
                      ?rid)
                 (chain c) (accountSuspicionMap st)
           = fold (\<lambda>c' m. addAccountSuspicion m (fst c') (of_int (chainScore c)) (snd c') (ring_id ?r)) ?cs
                  (accountSuspicionMap st)"
    by (simp add: fold_map comp_def)
  have ms: "set (member_accounts ?r) = fst ` set ?cs" by (simp add: image_comp comp_def)
  from engineInv_step [OF inv ms, of "ringCounter st + 1" "of_int (chainScore c)"]
  show ?thesis unfolding processShell_def Let_def f .
qed

lemma engineInv_fold:
  assumes "\<And>x st. engineInv st \<Longrightarrow> engineInv (f x st)"
  shows "engineInv st \<Longrightarrow> engineInv (fold f xs st)"
  by (induction xs arbitrary: st) (simp_all add: assms)

lemma engineInv_buildRings:
  "engineInv (buildRings scoreCycle cycles smurfingGroups shellChains)"
proof -
  have "engineInv \<lparr>ringCounter = 1, fraudRings = [], accountSuspicionMap = []\<rparr>"
    by (simp add: engineInv_def ringsContaining_def primaryRing_def)
  then have "engineInv (fold (processCycle scoreCycle) cycles
                          \<lparr>ringCounter = 1, fraudRings = [], accountSuspicionMap = []\<rparr>)"
    by (rule engineInv_fold [rotated]) (rule engineInv_processCycle)
  then have "engineInv (fold processSmurf smurfingGroups
                         (fold (processCycle scoreCycle) cycles
                            \<lparr>ringCounter = 1, fraudRings = [], accountSuspicionMap = []\<rparr>))"
    by (rule engineInv_fold [rotated]) (rule engineInv_processSmurf)
  then have "engineInv (fold processShell shellChains
                        (fold processSmurf smurfingGroups
                         (fold (processCycle scoreCycle) cycles
                            \<lparr>ringCounter = 1, fraudRings = [], accountSuspicionMap = []\<rparr>)))"
    by (rule engineInv_fold [rotated]) (rule engineInv_processShell)
  then show ?thesis by (simp only: buildRings_def)
qed

text \<open>The accounts built from the map carry the first ring id of their account.\<close>

lemma suspiciousAccountsOf_ring:
  assumes d: "distinct (map fst m)" and acc: "acc \<in> set (suspiciousAccountsOf m)"
  shows "account_id acc \<in> fst ` set m \<and> acc_ring_id acc = primaryRing m (account_id acc)"
proof -
  from acc obtain entry where e: "entry \<in> set m"
    and a: "acc = \<lparr>account_id = fst entry,
                    acc_suspicion_score = roundTo 10 (maxScore (snd entry)),
                    acc_suspicion_label = None,
                    detected_patterns = patterns (snd entry),
                    acc_ring_id = (case ringIds (snd entry) of [] \<Rightarrow> None | r # rs \<Rightarrow> Some r)\<rparr>"
    by (auto simp: suspiciousAccountsOf_def)
  from e have "(fst entry, snd entry) \<in> set m" by simp
  with d have "map_of m (fst entry) = Some (snd entry)" by (rule map_of_is_SomeI)
  with e a show ?thesis by (simp add: primaryRing_def image_iff) (rule bexI [of _ entry], simp_all)
qed

text \<open>The ring mapping gives the id of the last ring that has the account.\<close>

lemma inner_ringMapping:
  "fold (\<lambda>member m'. m'(member \<mapsto> rid)) ms m a = (if a \<in> set ms then Some rid else m a)"
  by (induction ms arbitrary: m) simp_all

lemma fold_ringMapping:
  "fold (\<lambda>r m. fold (\<lambda>member m'. m'(member \<mapsto> ring_id r)) (member_accounts r) m) rings m a
   = (if ringsContaining a rings = [] then m a
      else Some (ring_id (last (ringsContaining a rings))))"
proof (induction rings arbitrary: m)
  case Nil
  show ?case by (simp add: ringsContaining_def)
next
  case (Cons r rings)
  have c: "ringsContaining a (r # rings)
           = (if a \<in> set (member_accounts r) then r # ringsContaining a rings
              else ringsContaining a rings)"
    by (simp add: ringsContaining_def)
  let ?m1 = "fold (\<lambda>member m'. m'(member \<mapsto> ring_id r)) (member_accounts r) m"
  have s1: "fold (\<lambda>r m. fold (\<lambda>member m'. m'(member \<mapsto> ring_id r)) (member_accounts r) m)
                 (r # rings) m a
            = fold (\<lambda>r m. fold (\<lambda>member m'. m'(member \<mapsto> ring_id r)) (member_accounts r) m)
                   rings ?m1 a"
    by simp
  have s2: "fold (\<lambda>r m. fold (\<lambda>member m'. m'(member \<mapsto> ring_id r)) (member_accounts r) m)
                 rings ?m1 a
            = (if ringsContaining a rings = [] then ?m1 a
               else Some (ring_id (last (ringsContaining a rings))))"
    by (rule Cons.IH)
  have s3: "?m1 a = (if a \<in> set (member_accounts r) then Some (ring_id r) else m a)"
    by (rule inner_ringMapping)
  show ?case by (simp only: s1 s2 s3 c) simp
qed

lemma ringMappingOf_last:
  "ringMappingOf rings a
   = (if ringsContaining a rings = [] then None
      else Some (ring_id (last (ringsContaining a rings))))"
  by (simp add: ringMappingOf_def fold_ringMapping)

lemma reassignIds_nonempty: "r \<in> set (reassignIds mergedRings) \<Longrightarrow> ring_id r \<noteq> []"
  by (auto simp: reassignIds_def ringIdOf_nonempty)

lemma ringsContaining_ring_id:
  "ringsContaining a rings \<noteq> [] \<Longrightarrow> last (ringsContaining a rings) \<in> set rings"
proof -
  assume "ringsContaining a rings \<noteq> []"
  then have "last (ringsContaining a rings) \<in> set (ringsContaining a rings)" by (rule last_in_set)
  then show ?thesis by (simp add: ringsContaining_def)
qed

lemma assignRingId_reassigned:
  "acc_ring_id (assignRingId (ringMappingOf (reassignIds mergedRings)) acc)
   = (if ringsContaining (account_id acc) (reassignIds mergedRings) = [] then acc_ring_id acc
      else Some (ring_id (last (ringsContaining (account_id acc) (reassignIds mergedRings)))))"
proof (cases "ringsContaining (account_id acc) (reassignIds mergedRings) = []")
  case True
  then show ?thesis by (simp add: assignRingId_def ringMappingOf_last orNull_def)
next
  case False
  from ringsContaining_ring_id [OF False]
  have "ring_id (last (ringsContaining (account_id acc) (reassignIds mergedRings))) \<noteq> []"
    by (rule reassignIds_nonempty)
  with False show ?thesis by (simp add: assignRingId_def ringMappingOf_last orNull_def)
qed

lemma account_id_assignRingId: "account_id (assignRingId rm acc) = account_id acc"
  by (simp add: assignRingId_def)

lemma set_dedupById: "set (dedupById seen accs) \<subseteq> set accs"
  by (induction seen accs rule: dedupById.induct) auto

lemma scoreAllAccounts_keeps:
  assumes "acc \<in> set (scoreAllAccounts metas accounts)"
  shows "\<exists>acc0\<in>set accounts. account_id acc = account_id acc0 \<and> acc_ring_id acc = acc_ring_id acc0"
proof -
  from assms obtain acc0 where a0: "acc0 \<in> set (dedupById [] accounts)"
    and a: "acc = (let scoring = computeSuspicionScore metas (account_id acc0) (detected_patterns acc0)
                   in acc0\<lparr>acc_suspicion_score := suspicion_score scoring,
                           acc_suspicion_label := Some (suspicion_label scoring)\<rparr>)"
    by (auto simp: scoreAllAccounts_def sortByScoreDesc_def)
  from a0 set_dedupById have "acc0 \<in> set accounts" by blast
  moreover from a have "account_id acc = account_id acc0 \<and> acc_ring_id acc = acc_ring_id acc0"
    by (simp add: Let_def)
  ultimately show ?thesis by blast
qed

lemma ringsContaining_scoreAllRings:
  "ringsContaining a (scoreAllRings riskOf rings scored)
   = map (\<lambda>r. r\<lparr>risk_score := riskOf scored r\<rparr>) (ringsContaining a rings)"
  by (simp add: ringsContaining_def scoreAllRings_def filter_map comp_def)

text \<open>
  Claim C10: the analysis returns a result, and for every suspicious account of the result:
  if some ring of the emitted list has the account as a member, the account's ring id is the
  id of the last such ring in the order of the list; if none has, some raw ring has the
  account as a member and the account's ring id is the id of the first such raw ring.
\<close>

theorem reported_ring_id:
  "\<exists>res. analyze metas scoreCycle riskOf legitimateAccounts legitimateHubs
                   cycles smurfingGroups shellChains = Some res
     \<and> (\<forall>acc\<in>set (suspicious_accounts res).
           let final = ringsContaining (account_id acc) (fraud_rings res);
               raw = ringsContaining (account_id acc)
                       (fraudRings (buildRings scoreCycle cycles smurfingGroups shellChains))
           in (final \<noteq> [] \<longrightarrow> acc_ring_id acc = Some (ring_id (last final)))
              \<and> (final = [] \<longrightarrow> raw \<noteq> [] \<and> acc_ring_id acc = Some (ring_id (hd raw))))"
proof -
  define st where "st = buildRings scoreCycle cycles smurfingGroups shellChains"
  define filteredAccounts where
    "filteredAccounts = sortByScoreDesc (filterAccounts legitimateAccounts
                                           (suspiciousAccountsOf (accountSuspicionMap st)))"
  define filteredRings where
    "filteredRings = filterRings legitimateAccounts legitimateHubs (fraudRings st)"
  obtain mergedRings where mg: "mergeOverlappingRings filteredRings = Some mergedRings"
    using merge_exact [of filteredRings] by blast
  define ringsWithIds where "ringsWithIds = reassignIds mergedRings"
  define accountsWithRingIds where
    "accountsWithRingIds = map (assignRingId (ringMappingOf ringsWithIds)) filteredAccounts"
  define scoredAccounts where "scoredAccounts = scoreAllAccounts metas accountsWithRingIds"
  define res where
    "res = \<lparr>suspicious_accounts = scoredAccounts,
            fraud_rings = scoreAllRings riskOf ringsWithIds scoredAccounts\<rparr>"
  have an: "analyze metas scoreCycle riskOf legitimateAccounts legitimateHubs
              cycles smurfingGroups shellChains = Some res"
    using mg
    by (simp add: analyze_def Let_def st_def [symmetric] filteredAccounts_def [symmetric]
                  filteredRings_def [symmetric] ringsWithIds_def [symmetric]
                  accountsWithRingIds_def [symmetric] scoredAccounts_def [symmetric]
                  res_def [symmetric])
  have inv: "engineInv st" unfolding st_def by (rule engineInv_buildRings)
  then have d: "distinct (map fst (accountSuspicionMap st))"
    and k: "\<And>a. (a \<in> fst ` set (accountSuspicionMap st)) = (ringsContaining a (fraudRings st) \<noteq> [])"
    and p: "\<And>a. primaryRing (accountSuspicionMap st) a
             = (case ringsContaining a (fraudRings st) of [] \<Rightarrow> None | r # rs \<Rightarrow> Some (ring_id r))"
    by (simp_all add: engineInv_def)
  have each: "(let final = ringsContaining (account_id acc) (fraud_rings res);
                   raw = ringsContaining (account_id acc) (fraudRings st)
               in (final \<noteq> [] \<longrightarrow> acc_ring_id acc = Some (ring_id (last final)))
                  \<and> (final = [] \<longrightarrow> raw \<noteq> [] \<and> acc_ring_id acc = Some (ring_id (hd raw))))"
    if acc: "acc \<in> set (suspicious_accounts res)" for acc
  proof -
    from acc have "acc \<in> set (scoreAllAccounts metas accountsWithRingIds)"
      by (simp add: res_def scoredAccounts_def)
    from scoreAllAccounts_keeps [OF this] obtain acc1 where
      a1: "acc1 \<in> set accountsWithRingIds"
      and id1: "account_id acc = account_id acc1" and r1: "acc_ring_id acc = acc_ring_id acc1"
      by blast
    from a1 obtain acc0 where a0: "acc0 \<in> set filteredAccounts"
      and e1: "acc1 = assignRingId (ringMappingOf ringsWithIds) acc0"
      by (auto simp: accountsWithRingIds_def)
    from a0 have "acc0 \<in> set (suspiciousAccountsOf (accountSuspicionMap st))"
      by (simp add: filteredAccounts_def sortByScoreDesc_def filterAccounts_def)
    from suspiciousAccountsOf_ring [OF d this]
    have key: "account_id acc0 \<in> fst ` set (accountSuspicionMap st)"
      and pr: "acc_ring_id acc0 = primaryRing (accountSuspicionMap st) (account_id acc0)"
      by simp_all
    have id0: "account_id acc = account_id acc0"
      using id1 e1 by (simp add: account_id_assignRingId)
    let ?a = "account_id acc"
    let ?final = "ringsContaining ?a ringsWithIds"
    have raw: "ringsContaining ?a (fraudRings st) \<noteq> []" using key k id0 by simp
    then obtain r rs where rr: "ringsContaining ?a (fraudRings st) = r # rs"
      by (cases "ringsContaining ?a (fraudRings st)") simp_all
    have r0: "acc_ring_id acc0 = Some (ring_id (hd (ringsContaining ?a (fraudRings st))))"
      using pr p [of ?a] rr id0 by simp
    have ra: "acc_ring_id acc
              = (if ?final = [] then acc_ring_id acc0 else Some (ring_id (last ?final)))"
      using r1 e1 id0 assignRingId_reassigned [of mergedRings acc0]
      by (simp add: ringsWithIds_def)
    have fin: "ringsContaining ?a (fraud_rings res)
               = map (\<lambda>r. r\<lparr>risk_score := riskOf scoredAccounts r\<rparr>) ?final"
      by (simp add: res_def ringsContaining_scoreAllRings)
    have l: "?final \<noteq> [] \<Longrightarrow> ring_id (last (ringsContaining ?a (fraud_rings res)))
                                  = ring_id (last ?final)"
      by (simp add: fin last_map)
    show ?thesis
      unfolding Let_def
    proof (intro conjI impI)
      assume "ringsContaining ?a (fraud_rings res) \<noteq> []"
      then have ne: "?final \<noteq> []" by (simp add: fin)
      with ra l show "acc_ring_id acc = Some (ring_id (last (ringsContaining ?a (fraud_rings res))))"
        by simp
    next
      assume "ringsContaining ?a (fraud_rings res) = []"
      then show "ringsContaining ?a (fraudRings st) \<noteq> []" using raw by simp
    next
      assume "ringsContaining ?a (fraud_rings res) = []"
      then have "?final = []" by (simp add: fin)
      with ra r0 show "acc_ring_id acc = Some (ring_id (hd (ringsContaining ?a (fraudRings st))))"
        by simp
    qed
  qed
  from an each show ?thesis unfolding st_def by blast
qed

text \<open>
  Three cycles, of which the third has a legitimate account and is dropped by the filter:
  the account \<open>A\<close> is in the first two rings and reports the second, and the account \<open>X\<close>
  reports the third raw ring, which is not in the emitted list.
\<close>

lemma ringIdCycles_result:
  "map_option (\<lambda>res. (map account_id (suspicious_accounts res),
                       map (\<lambda>r. (ring_id r, member_accounts r)) (fraud_rings res)))
     (analyze [] (\<lambda>c. 80) (\<lambda>s r. 50) {''L''} {} ringIdCycles [] [])
   = Some ([''A'', ''B'', ''C'', ''D'', ''E'', ''X'', ''Y''],
           [(''RING_001'', [''A'', ''B'', ''C'']), (''RING_002'', [''A'', ''D'', ''E''])])"
  by code_simp

lemma ringIdCycles_raw:
  "map (\<lambda>r. (ring_id r, member_accounts r))
       (fraudRings (buildRings (\<lambda>c. 80) ringIdCycles [] []))
   = [(''RING_001'', [''A'', ''B'', ''C'']), (''RING_002'', [''A'', ''D'', ''E'']),
      (''RING_003'', [''X'', ''Y'', ''L''])]"
  by code_simp

lemma ringsContaining_pairs:
  "map (\<lambda>r. (ring_id r, member_accounts r)) (ringsContaining a rings)
   = filter (\<lambda>p. a \<in> set (snd p)) (map (\<lambda>r. (ring_id r, member_accounts r)) rings)"
  by (simp add: ringsContaining_def filter_map comp_def)

lemma ring_id_last_pairs:
  "rs \<noteq> [] \<Longrightarrow> ring_id (last rs) = fst (last (map (\<lambda>r. (ring_id r, member_accounts r)) rs))"
  by (simp add: last_map)

lemma ring_id_hd_pairs:
  "rs \<noteq> [] \<Longrightarrow> ring_id (hd rs) = fst (hd (map (\<lambda>r. (ring_id r, member_accounts r)) rs))"
  by (simp add: hd_map)

theorem reported_ring_id_witness:
  "\<exists>res. analyze [] (\<lambda>c. 80) (\<lambda>s r. 50) {''L''} {} ringIdCycles [] [] = Some res
     \<and> map ring_id (fraud_rings res) = [''RING_001'', ''RING_002'']
     \<and> account_id (suspicious_accounts res ! 0) = ''A''
     \<and> acc_ring_id (suspicious_accounts res ! 0) = Some ''RING_002''
     \<and> account_id (suspicious_accounts res ! 5) = ''X''
     \<and> acc_ring_id (suspicious_accounts res ! 5) = Some ''RING_003''"
proof -
  let ?raw = "fraudRings (buildRings (\<lambda>c. 80) ringIdCycles [] [])"
  from reported_ring_id [of "[]" "\<lambda>c. 80" "\<lambda>s r. 50" "{''L''}" "{}" ringIdCycles "[]" "[]"]
  obtain res where an: "analyze [] (\<lambda>c. 80) (\<lambda>s r. 50) {''L''} {} ringIdCycles [] [] = Some res"
    and all: "\<forall>acc\<in>set (suspicious_accounts res).
           let final = ringsContaining (account_id acc) (fraud_rings res);
               raw = ringsContaining (account_id acc) ?raw
           in (final \<noteq> [] \<longrightarrow> acc_ring_id acc = Some (ring_id (last final)))
              \<and> (final = [] \<longrightarrow> raw \<noteq> [] \<and> acc_ring_id acc = Some (ring_id (hd raw)))"
    by blast
  from ringIdCycles_result an
  have ids: "map account_id (suspicious_accounts res) = [''A'', ''B'', ''C'', ''D'', ''E'', ''X'', ''Y'']"
    and fr: "map (\<lambda>r. (ring_id r, member_accounts r)) (fraud_rings res)
             = [(''RING_001'', [''A'', ''B'', ''C'']), (''RING_002'', [''A'', ''D'', ''E''])]"
    by simp_all
  have "length (map account_id (suspicious_accounts res)) = 7" by (simp only: ids) simp
  then have len: "length (suspicious_accounts res) = 7" by simp
  have "map fst (map (\<lambda>r. (ring_id r, member_accounts r)) (fraud_rings res))
        = [''RING_001'', ''RING_002'']"
    by (simp only: fr) simp
  then have rids: "map ring_id (fraud_rings res) = [''RING_001'', ''RING_002'']"
    by (simp add: comp_def)
  let ?a = "suspicious_accounts res ! 0"
  let ?x = "suspicious_accounts res ! 5"
  have a_in: "?a \<in> set (suspicious_accounts res)" using len by (intro nth_mem) simp
  have x_in: "?x \<in> set (suspicious_accounts res)" using len by (intro nth_mem) simp
  have "account_id ?a = map account_id (suspicious_accounts res) ! 0"
    using len by (intro nth_map [symmetric]) simp
  then have a_id: "account_id ?a = ''A''" by (simp add: ids)
  have "account_id ?x = map account_id (suspicious_accounts res) ! 5"
    using len by (intro nth_map [symmetric]) simp
  then have x_id: "account_id ?x = ''X''" by (simp add: ids)
  have fa: "map (\<lambda>r. (ring_id r, member_accounts r)) (ringsContaining ''A'' (fraud_rings res))
            = [(''RING_001'', [''A'', ''B'', ''C'']), (''RING_002'', [''A'', ''D'', ''E''])]"
    by (simp add: ringsContaining_pairs fr)
  then have fa_ne: "ringsContaining ''A'' (fraud_rings res) \<noteq> []" by auto
  from ring_id_last_pairs [OF fa_ne]
  have fa_last: "ring_id (last (ringsContaining ''A'' (fraud_rings res))) = ''RING_002''"
    by (simp add: fa)
  from all a_in
  have "let final = ringsContaining (account_id ?a) (fraud_rings res);
               raw = ringsContaining (account_id ?a) ?raw
           in (final \<noteq> [] \<longrightarrow> acc_ring_id ?a = Some (ring_id (last final)))
              \<and> (final = [] \<longrightarrow> raw \<noteq> [] \<and> acc_ring_id ?a = Some (ring_id (hd raw)))"
    by (rule bspec)
  then have a_ring: "acc_ring_id ?a = Some ''RING_002''"
    using fa_ne fa_last by (simp add: Let_def a_id)
  have "map (\<lambda>r. (ring_id r, member_accounts r)) (ringsContaining ''X'' (fraud_rings res)) = []"
    by (simp add: ringsContaining_pairs fr)
  then have fx: "ringsContaining ''X'' (fraud_rings res) = []" by simp
  have rx: "map (\<lambda>r. (ring_id r, member_accounts r)) (ringsContaining ''X'' ?raw)
            = [(''RING_003'', [''X'', ''Y'', ''L''])]"
    by (simp add: ringsContaining_pairs ringIdCycles_raw)
  then have rx_ne: "ringsContaining ''X'' ?raw \<noteq> []" by auto
  from ring_id_hd_pairs [OF rx_ne]
  have rx_hd: "ring_id (hd (ringsContaining ''X'' ?raw)) = ''RING_003''" by (simp add: rx)
  from all x_in
  have "let final = ringsContaining (account_id ?x) (fraud_rings res);
               raw = ringsContaining (account_id ?x) ?raw
           in (final \<noteq> [] \<longrightarrow> acc_ring_id ?x = Some (ring_id (last final)))
              \<and> (final = [] \<longrightarrow> raw \<noteq> [] \<and> acc_ring_id ?x = Some (ring_id (hd raw)))"
    by (rule bspec)
  then have x_ring: "acc_ring_id ?x = Some ''RING_003''"
    using fx rx_hd by (simp add: Let_def x_id)
  show ?thesis
    by (rule exI [of _ res]) (simp only: an rids a_id a_ring x_id x_ring simp_thms)
qed

end
